theory Spec2Isabelle
  imports Main "HOL-Library.AList"
begin

section \<open>Values of the JavaScript runtime\<close>

text \<open>
  The MCP client (\<^verbatim>\<open>src/mcp-client.js\<close>) reads \<^verbatim>\<open>Buffer\<close> chunks from the child's
  standard output, decodes each chunk to a JavaScript string, cuts the text into lines and
  hands every line to \<^verbatim>\<open>JSON.parse\<close>. A \<^verbatim>\<open>Buffer\<close> is a byte string (\<open>string\<close>, one
  \<open>char\<close> per byte); a decoded JavaScript string is a list of code points (\<open>jstext\<close>).
\<close>

type_synonym jstext = "nat list"

text \<open>
  Parsed JSON. Numbers are the integers (request ids are integers; a number that is not an
  integer equals no request id). Names of members and string values are kept in UTF-8, one
  \<open>char\<close> per byte: the client only tests them for equality and for emptiness.
\<close>

datatype json =
    JNull
  | JBool bool
  | JNum int
  | JStr string
  | JArr "json list"
  | JObj "(string \<times> json) list"

text \<open>JavaScript truthiness of a parsed value; \<^verbatim>\<open>undefined\<close> is \<open>None\<close>.\<close>

fun truthy :: "json \<Rightarrow> bool" where
  "truthy JNull = False"
| "truthy (JBool b) = b"
| "truthy (JNum n) = (n \<noteq> 0)"
| "truthy (JStr s) = (s \<noteq> [])"
| "truthy (JArr xs) = True"
| "truthy (JObj kvs) = True"

definition truthy_opt :: "json option \<Rightarrow> bool" where
  "truthy_opt v = (case v of None \<Rightarrow> False | Some j \<Rightarrow> truthy j)"

text \<open>
  \<^verbatim>\<open>v.k\<close> for a value other than \<^verbatim>\<open>null\<close> and one of the names the client reads
  (\<^verbatim>\<open>id\<close>, \<^verbatim>\<open>error\<close>, \<^verbatim>\<open>method\<close>, \<^verbatim>\<open>result\<close>, \<^verbatim>\<open>tools\<close>, \<^verbatim>\<open>resources\<close>): an object
  gives its member, every other value gives \<^verbatim>\<open>undefined\<close>. On \<^verbatim>\<open>null\<close> the access
  throws; the callers below write that case out.
\<close>

fun get_prop :: "json \<Rightarrow> string \<Rightarrow> json option" where
  "get_prop (JObj kvs) k = map_of kvs k"
| "get_prop j k = None"

text \<open>\<^verbatim>\<open>v?.k\<close>: \<^verbatim>\<open>undefined\<close> when \<open>v\<close> is \<^verbatim>\<open>undefined\<close> or \<^verbatim>\<open>null\<close>.\<close>

definition opt_prop :: "json option \<Rightarrow> string \<Rightarrow> json option" where
  "opt_prop v k = (case v of None \<Rightarrow> None | Some JNull \<Rightarrow> None | Some j \<Rightarrow> get_prop j k)"

text \<open>\<^verbatim>\<open>v || []\<close>.\<close>

definition or_empty_array :: "json option \<Rightarrow> json" where
  "or_empty_array v = (case v of None \<Rightarrow> JArr [] | Some j \<Rightarrow> if truthy j then j else JArr [])"

text \<open>
  Converting a parsed value to a string, as a template literal \<^verbatim>\<open>`${v}`\<close> does, throws
  a TypeError for some values: an object that has a member named \<^verbatim>\<open>toString\<close> (the member
  of a parsed object is never callable, and \<^verbatim>\<open>valueOf\<close> gives no primitive), and an array
  with such an element (\<^verbatim>\<open>join\<close> converts every element but \<^verbatim>\<open>null\<close>). Every other
  value is printed.
\<close>

fun unprintable :: "json \<Rightarrow> bool" where
  "unprintable (JObj kvs) = (map_of kvs ''toString'' \<noteq> None)"
| "unprintable (JArr xs) = (\<exists>x \<in> set xs. unprintable x)"
| "unprintable j = False"

subsection \<open>\<^verbatim>\<open>Buffer.prototype.toString()\<close>\<close>

text \<open>
  With no argument the runtime decodes the bytes as UTF-8; every malformed or truncated
  sequence becomes U+FFFD (the decoder of the WHATWG Encoding standard). The decoder is
  either between characters or inside a multi-byte sequence, holding the code point so
  far, the number of bytes still needed and the range allowed for the next byte.
\<close>

datatype utf8_state = Idle | Inside nat nat nat nat

definition utf8_lead :: "nat \<Rightarrow> nat + utf8_state" where
  "utf8_lead b =
     (if b \<le> 0x7F then Inl b
      else if 0xC2 \<le> b \<and> b \<le> 0xDF then Inr (Inside (b - 0xC0) 1 0x80 0xBF)
      else if 0xE0 \<le> b \<and> b \<le> 0xEF then
        Inr (Inside (b - 0xE0) 2 (if b = 0xE0 then 0xA0 else 0x80) (if b = 0xED then 0x9F else 0xBF))
      else if 0xF0 \<le> b \<and> b \<le> 0xF4 then
        Inr (Inside (b - 0xF0) 3 (if b = 0xF0 then 0x90 else 0x80) (if b = 0xF4 then 0x8F else 0xBF))
      else Inl 0xFFFD)"

fun utf8_decode :: "utf8_state \<Rightarrow> nat list \<Rightarrow> jstext" where
  "utf8_decode Idle [] = []"
| "utf8_decode (Inside cp n lo hi) [] = [0xFFFD]"
| "utf8_decode Idle (b # bs) =
     (case utf8_lead b of
        Inl c \<Rightarrow> c # utf8_decode Idle bs
      | Inr st \<Rightarrow> utf8_decode st bs)"
| "utf8_decode (Inside cp n lo hi) (b # bs) =
     (if lo \<le> b \<and> b \<le> hi then
        (if n = 1 then (cp * 64 + (b - 0x80)) # utf8_decode Idle bs
         else utf8_decode (Inside (cp * 64 + (b - 0x80)) (n - 1) 0x80 0xBF) bs)
      else 0xFFFD #
        (case utf8_lead b of
           Inl c \<Rightarrow> c # utf8_decode Idle bs
         | Inr st \<Rightarrow> utf8_decode st bs))"

definition toString :: "string \<Rightarrow> jstext" where
  "toString data = utf8_decode Idle (map of_char data)"

subsection \<open>\<^verbatim>\<open>String.prototype.split('\n')\<close> and \<^verbatim>\<open>trim()\<close>\<close>

text \<open>The pieces between the line feeds (code point 10); never the empty list.\<close>

fun split_nl :: "jstext \<Rightarrow> jstext list" where
  "split_nl [] = [[]]"
| "split_nl (c # cs) =
     (if c = 10 then [] # split_nl cs
      else (case split_nl cs of [] \<Rightarrow> [[c]] | l # ls \<Rightarrow> (c # l) # ls))"

text \<open>White space and line terminators of ECMAScript.\<close>

definition is_ws :: "nat \<Rightarrow> bool" where
  "is_ws c \<longleftrightarrow>
     (9 \<le> c \<and> c \<le> 13) \<or> c = 32 \<or> c = 0xA0 \<or> c = 0x1680 \<or> (0x2000 \<le> c \<and> c \<le> 0x200A) \<or>
     c = 0x2028 \<or> c = 0x2029 \<or> c = 0x202F \<or> c = 0x205F \<or> c = 0x3000 \<or> c = 0xFEFF"

definition trim :: "jstext \<Rightarrow> jstext" where
  "trim t = rev (dropWhile is_ws (rev (dropWhile is_ws t)))"

section \<open>The Child Connection: class \<^verbatim>\<open>MCPClient\<close>\<close>

datatype signal = SIGTERM | SIGKILL

datatype err =
    StdinNotAvailable
  | WriteFailed
  | NotificationFailed
  | TimedOut nat
  | ConnectionClosed
  | McpError json
  | NotInitialized
  | StreamsFailed
  | SpawnFailed
  | ProcessFailed
  | NotPrintable

text \<open>How the promise of \<^verbatim>\<open>sendRequest\<close> is settled: \<^verbatim>\<open>resolve(response)\<close> or \<^verbatim>\<open>reject(error)\<close>.\<close>

datatype outcome = Resolved json | Rejected err

text \<open>The four verbs; \<^verbatim>\<open>callTool\<close> carries the tool name it is given.\<close>

datatype verb = ListTools | CallTool json | ListResources | ReadResource

text \<open>
  The code that awaits the promise of a request: \<^verbatim>\<open>initialize\<close> of the \<open>n\<close>-th call of
  \<^verbatim>\<open>connect\<close>, \<^verbatim>\<open>disconnect\<close>, or one of the four verbs.
\<close>

datatype cont = KInitialize nat | KShutdown | KVerb verb

datatype emission = Disconnected | Notification json

datatype logentry =
    ReceivedResponse json
  | ReceivedNotification
  | ParseFailure jstext
  | ForceKilling

datatype spawn = SpawnThrows | SpawnNoStreams | Spawned

text \<open>
  A \<^verbatim>\<open>ChildProcess\<close> object of the runtime: whether it has its three streams, the
  \<^verbatim>\<open>killed\<close> flag, whether the process has exited, and the signals delivered to it.
\<close>

record child =
  streams :: bool
  killed :: bool
  exited :: bool
  received :: "signal list"

text \<open>
  The fields of the object (\<open>process\<close> holds the index of a \<^verbatim>\<open>ChildProcess\<close> in
  \<open>children\<close>, \<open>pendingRequests\<close> is the \<^verbatim>\<open>Map\<close> in insertion order, each waiter named
  by the code that awaits it), followed by what surrounds the object: the process objects,
  the callbacks the runtime still owes (\<open>writing\<close>, \<open>notifying\<close>, \<open>killTimers\<close>,
  \<open>microtasks\<close>) and what the object has done so far (\<open>calls\<close> of \<^verbatim>\<open>resolve\<close> and
  \<^verbatim>\<open>reject\<close> per request id, lines \<open>written\<close> to stdin, events \<open>emitted\<close>, the promises of
  \<^verbatim>\<open>connect\<close>, the values \<open>returned\<close> to the callers of the verbs, the \<open>logged\<close> lines).
\<close>

record client =
  process :: "nat option"
  requestId :: nat
  pendingRequests :: "(nat \<times> cont) list"
  initialized :: bool
  buffer :: jstext
  children :: "child list"
  writing :: "nat list"
  notifying :: "nat list"
  killTimers :: nat
  microtasks :: "(cont \<times> outcome) list"
  calls :: "(nat \<times> outcome) list"
  written :: "(nat option \<times> string) list"
  emitted :: "emission list"
  connects :: "(err option) option list"
  returned :: "(verb \<times> (err + json option)) list"
  logged :: "logentry list"

text \<open>The constructor.\<close>

definition new_client :: client where
  "new_client =
     \<lparr> process = None, requestId = 1, pendingRequests = [], initialized = False, buffer = [],
       children = [], writing = [], notifying = [], killTimers = 0, microtasks = [],
       calls = [], written = [], emitted = [], connects = [], returned = [], logged = [] \<rparr>"

text \<open>\<^verbatim>\<open>this.process?.stdin\<close> is truthy.\<close>

definition has_stdin :: "client \<Rightarrow> bool" where
  "has_stdin s =
     (case process s of
        None \<Rightarrow> False
      | Some h \<Rightarrow> h < length (children s) \<and> streams (children s ! h))"

text \<open>
  \<^verbatim>\<open>subprocess.kill(signal)\<close> of the runtime: a process that has exited gets nothing and
  its \<^verbatim>\<open>killed\<close> flag stays; otherwise the signal is delivered and \<^verbatim>\<open>killed\<close> is set.
\<close>

definition kill :: "nat \<Rightarrow> signal \<Rightarrow> client \<Rightarrow> client" where
  "kill h sig s =
     (if h < length (children s) \<and> \<not> exited (children s ! h) then
        s\<lparr>children := (children s)[h := (children s ! h)
             \<lparr>killed := True, received := received (children s ! h) @ [sig]\<rparr>]\<rparr>
      else s)"

text \<open>
  Calling the \<^verbatim>\<open>resolve\<close> or \<^verbatim>\<open>reject\<close> of the still unsettled promise of request \<open>i\<close>: the
  call is recorded and the code awaiting the promise is queued as a microtask.
\<close>

definition settle :: "cont \<Rightarrow> nat \<Rightarrow> outcome \<Rightarrow> client \<Rightarrow> client" where
  "settle k i out s = s\<lparr>calls := calls s @ [(i, out)], microtasks := microtasks s @ [(k, out)]\<rparr>"

definition getNextRequestId :: "client \<Rightarrow> nat \<times> client" where
  "getNextRequestId s = (requestId s, s\<lparr>requestId := requestId s + 1\<rparr>)"

text \<open>
  \<^verbatim>\<open>sendRequest\<close> up to the end of the promise executor. The write callback and the 30 s
  timer arrive later, as \<open>writeCallback\<close> and \<open>requestTimeout\<close>.
\<close>

definition sendRequest :: "cont \<Rightarrow> nat \<Rightarrow> string \<Rightarrow> client \<Rightarrow> client" where
  "sendRequest k i method s =
     (if \<not> has_stdin s then settle k i (Rejected StdinNotAvailable) s
      else s\<lparr>pendingRequests := AList.update i k (pendingRequests s),
             written := written s @ [(Some i, method)],
             writing := writing s @ [i]\<rparr>)"

text \<open>The callback of \<^verbatim>\<open>stdin.write\<close> in \<^verbatim>\<open>sendRequest\<close>; \<open>failed\<close> says it got an error.\<close>

definition writeCallback :: "nat \<Rightarrow> bool \<Rightarrow> client \<Rightarrow> client" where
  "writeCallback i failed s =
     (if i \<notin> set (writing s) then s
      else
        let s1 = s\<lparr>writing := remove1 i (writing s)\<rparr> in
        if failed then
          (case map_of (pendingRequests s1) i of
             Some k \<Rightarrow>
               settle k i (Rejected WriteFailed)
                 (s1\<lparr>pendingRequests := AList.delete i (pendingRequests s1)\<rparr>)
           | None \<Rightarrow> s1\<lparr>calls := calls s1 @ [(i, Rejected WriteFailed)]\<rparr>)
        else s1)"

text \<open>The callback of the 30 s timer of \<^verbatim>\<open>sendRequest\<close>.\<close>

definition requestTimeout :: "nat \<Rightarrow> client \<Rightarrow> client" where
  "requestTimeout i s =
     (case map_of (pendingRequests s) i of
        Some k \<Rightarrow>
          settle k i (Rejected (TimedOut i))
            (s\<lparr>pendingRequests := AList.delete i (pendingRequests s)\<rparr>)
      | None \<Rightarrow> s)"

text \<open>
  \<^verbatim>\<open>this.pendingRequests.has(response.id)\<close>: the keys of the map are the numbers issued by
  \<open>getNextRequestId\<close>, so only a number can be found.
\<close>

definition pending_key :: "json option \<Rightarrow> client \<Rightarrow> nat option" where
  "pending_key v s =
     (case v of
        Some (JNum n) \<Rightarrow>
          (if 0 \<le> n \<and> map_of (pendingRequests s) (nat n) \<noteq> None then Some (nat n) else None)
      | _ \<Rightarrow> None)"

text \<open>
  \<^verbatim>\<open>handleResponse\<close>. It throws a TypeError in two places, both after the first log line:
  on \<^verbatim>\<open>null\<close> the read of \<^verbatim>\<open>response.id\<close> throws, and in the last branch the log line
  prints \<^verbatim>\<open>${response.method}\<close> before \<^verbatim>\<open>emit\<close>, which throws when the member cannot be
  converted to a string.
\<close>

definition handleResponse :: "json \<Rightarrow> client \<Rightarrow> unit + client" where
  "handleResponse response s =
     (let s0 = s\<lparr>logged := logged s @ [ReceivedResponse response]\<rparr> in
      if response = JNull then Inl ()
      else if truthy_opt (get_prop response ''id'') \<and> pending_key (get_prop response ''id'') s0 \<noteq> None then
        (case pending_key (get_prop response ''id'') s0 of
           None \<Rightarrow> Inr s0
         | Some i \<Rightarrow>
             (case map_of (pendingRequests s0) i of
                None \<Rightarrow> Inr s0
              | Some k \<Rightarrow>
                  let s1 = s0\<lparr>pendingRequests := AList.delete i (pendingRequests s0)\<rparr> in
                  if truthy_opt (get_prop response ''error'')
                  then Inr (settle k i (Rejected (McpError (the (get_prop response ''error'')))) s1)
                  else Inr (settle k i (Resolved response) s1)))
      else if truthy_opt (get_prop response ''method'') then
        (if unprintable (the (get_prop response ''method'')) then Inl ()
         else Inr (s0\<lparr>logged := logged s0 @ [ReceivedNotification],
                      emitted := emitted s0 @ [Notification response]\<rparr>))
      else Inr s0)"

text \<open>
  The body of the loop of \<^verbatim>\<open>handleStdout\<close> for one line: blank lines are skipped, and the
  \<^verbatim>\<open>catch\<close> covers both \<^verbatim>\<open>JSON.parse\<close> and \<^verbatim>\<open>handleResponse\<close>. \<open>parse\<close> stands for
  \<^verbatim>\<open>JSON.parse\<close> (\<open>None\<close>: it throws).
\<close>

definition handleLine :: "(jstext \<Rightarrow> json option) \<Rightarrow> client \<Rightarrow> jstext \<Rightarrow> client" where
  "handleLine parse s line =
     (if trim line = [] then s
      else
        (case parse (trim line) of
           None \<Rightarrow> s\<lparr>logged := logged s @ [ParseFailure line]\<rparr>
         | Some response \<Rightarrow>
             (case handleResponse response s of
                Inl _ \<Rightarrow> s\<lparr>logged := logged s @ [ReceivedResponse response, ParseFailure line]\<rparr>
              | Inr s' \<Rightarrow> s')))"

text \<open>
  The first three statements of \<^verbatim>\<open>handleStdout\<close>: the complete lines of buffer plus
  chunk, and the fragment kept (\<^verbatim>\<open>lines.pop() || ''\<close>).
\<close>

definition frame :: "jstext \<Rightarrow> string \<Rightarrow> jstext list \<times> jstext" where
  "frame buf data = (let lines = split_nl (buf @ toString data) in (butlast lines, last lines))"

definition handleStdout :: "(jstext \<Rightarrow> json option) \<Rightarrow> string \<Rightarrow> client \<Rightarrow> client" where
  "handleStdout parse data s =
     (let (lines, rest) = frame (buffer s) data
      in foldl (handleLine parse) (s\<lparr>buffer := rest\<rparr>) lines)"

text \<open>
  \<^verbatim>\<open>cleanup\<close>. The callback of its 5 s timer is \<open>forceKillTimeout\<close>; it reads
  \<^verbatim>\<open>this.process\<close> when it runs.
\<close>

definition cleanup :: "client \<Rightarrow> client" where
  "cleanup s =
     (let s1 = (case process s of
                  Some h \<Rightarrow> (kill h SIGTERM s)\<lparr>killTimers := killTimers s + 1, process := None\<rparr>
                | None \<Rightarrow> s);
          s2 = foldl (\<lambda>t (i, k). settle k i (Rejected ConnectionClosed) t) s1 (pendingRequests s1)
      in s2\<lparr>pendingRequests := [], initialized := False, emitted := emitted s2 @ [Disconnected]\<rparr>)"

definition forceKillTimeout :: "client \<Rightarrow> client" where
  "forceKillTimeout s =
     (if killTimers s = 0 then s
      else
        let s1 = s\<lparr>killTimers := killTimers s - 1\<rparr> in
        (case process s1 of
           Some h \<Rightarrow>
             (if h < length (children s1) \<and> \<not> killed (children s1 ! h)
              then kill h SIGKILL (s1\<lparr>logged := logged s1 @ [ForceKilling]\<rparr>)
              else s1)
         | None \<Rightarrow> s1))"

text \<open>Settling the promise of the \<open>n\<close>-th \<^verbatim>\<open>connect\<close>; a settled promise stays as it is.\<close>

definition connect_settle :: "nat \<Rightarrow> err option \<Rightarrow> client \<Rightarrow> client" where
  "connect_settle n r s =
     (if n < length (connects s) \<and> connects s ! n = None
      then s\<lparr>connects := (connects s)[n := Some r]\<rparr> else s)"

text \<open>
  \<^verbatim>\<open>sendNotification\<close> as \<^verbatim>\<open>initialize\<close> calls it: without stdin it throws, which rejects
  \<^verbatim>\<open>connect\<close>; otherwise the line is written and the write callback is awaited.
\<close>

definition sendNotification :: "nat \<Rightarrow> client \<Rightarrow> client" where
  "sendNotification n s =
     (if \<not> has_stdin s then connect_settle n (Some StdinNotAvailable) s
      else s\<lparr>written := written s @ [(None, ''notifications/initialized'')],
             notifying := notifying s @ [n]\<rparr>)"

text \<open>
  The callback of \<^verbatim>\<open>stdin.write\<close> in \<^verbatim>\<open>sendNotification\<close>, then the rest of
  \<^verbatim>\<open>initialize\<close> and the \<^verbatim>\<open>then\<close>/\<^verbatim>\<open>catch\<close> of \<^verbatim>\<open>connect\<close>.
\<close>

definition notificationCallback :: "bool \<Rightarrow> client \<Rightarrow> client" where
  "notificationCallback failed s =
     (case notifying s of
        [] \<Rightarrow> s
      | n # ns \<Rightarrow>
          let s1 = s\<lparr>notifying := ns\<rparr> in
          if failed then connect_settle n (Some NotificationFailed) s1
          else connect_settle n None (s1\<lparr>initialized := True\<rparr>))"

text \<open>\<^verbatim>\<open>initialize\<close> up to its first \<^verbatim>\<open>await\<close>.\<close>

definition initialize :: "nat \<Rightarrow> client \<Rightarrow> client" where
  "initialize n s = (let (i, s1) = getNextRequestId s in sendRequest (KInitialize n) i ''initialize'' s1)"

text \<open>
  \<^verbatim>\<open>connect\<close>; the argument is what \<^verbatim>\<open>spawn\<close> does. \<open>SpawnThrows\<close> also stands for a
  throw of the two log lines in front of it (they print the configured command and
  arguments): the promise is rejected and no process exists.
\<close>

definition connect :: "spawn \<Rightarrow> client \<Rightarrow> client" where
  "connect sp s =
     (let n = length (connects s);
          s0 = s\<lparr>connects := connects s @ [None]\<rparr>;
          h = length (children s0)
      in case sp of
           SpawnThrows \<Rightarrow> connect_settle n (Some SpawnFailed) s0
         | SpawnNoStreams \<Rightarrow>
             connect_settle n (Some StreamsFailed)
               (s0\<lparr>children := children s0 @ [\<lparr>streams = False, killed = False, exited = False, received = []\<rparr>],
                   process := Some h\<rparr>)
         | Spawned \<Rightarrow>
             initialize n
               (s0\<lparr>children := children s0 @ [\<lparr>streams = True, killed = False, exited = False, received = []\<rparr>],
                   process := Some h\<rparr>))"

text \<open>
  Process \<open>h\<close> exits: the runtime marks it, and the \<^verbatim>\<open>'exit'\<close> handler runs
  \<^verbatim>\<open>cleanup\<close>. \<^verbatim>\<open>connect\<close> puts the handler on the process only after it has found the
  three streams.
\<close>

definition exitHandler :: "nat \<Rightarrow> client \<Rightarrow> client" where
  "exitHandler h s =
     (if h < length (children s) \<and> \<not> exited (children s ! h) then
        let s1 = s\<lparr>children := (children s)[h := (children s ! h)\<lparr>exited := True\<rparr>]\<rparr>
        in if streams (children s ! h) then cleanup s1 else s1
      else s)"

text \<open>The \<^verbatim>\<open>'error'\<close> handler of the process: it rejects the promise of \<^verbatim>\<open>connect\<close>.\<close>

definition errorHandler :: "nat \<Rightarrow> client \<Rightarrow> client" where
  "errorHandler n s = connect_settle n (Some ProcessFailed) s"

definition method_of :: "verb \<Rightarrow> string" where
  "method_of v = (case v of ListTools \<Rightarrow> ''tools/list'' | CallTool n \<Rightarrow> ''tools/call''
                  | ListResources \<Rightarrow> ''resources/list'' | ReadResource \<Rightarrow> ''resources/read'')"

text \<open>
  A verb up to its \<^verbatim>\<open>await\<close> (\<open>callVerb\<close>), and what it returns once the request is settled
  (\<open>verb_result\<close>): \<^verbatim>\<open>response.result?.tools || []\<close> for \<^verbatim>\<open>listTools\<close>,
  \<^verbatim>\<open>response.result?.resources || []\<close> for \<^verbatim>\<open>listResources\<close>, \<^verbatim>\<open>response.result\<close>
  for the other two. \<^verbatim>\<open>callTool\<close> prints the tool name in a log line before it takes a
  request id: a name that cannot be converted to a string makes the call fail there.
\<close>

definition name_unprintable :: "verb \<Rightarrow> bool" where
  "name_unprintable v = (case v of CallTool n \<Rightarrow> unprintable n | _ \<Rightarrow> False)"

definition callVerb :: "verb \<Rightarrow> client \<Rightarrow> client" where
  "callVerb v s =
     (if \<not> initialized s then s\<lparr>returned := returned s @ [(v, Inl NotInitialized)]\<rparr>
      else if name_unprintable v then s\<lparr>returned := returned s @ [(v, Inl NotPrintable)]\<rparr>
      else let (i, s1) = getNextRequestId s in sendRequest (KVerb v) i (method_of v) s1)"

definition verb_result :: "verb \<Rightarrow> outcome \<Rightarrow> err + json option" where
  "verb_result v out =
     (case out of
        Rejected e \<Rightarrow> Inl e
      | Resolved response \<Rightarrow>
          (case v of
             ListTools \<Rightarrow> Inr (Some (or_empty_array (opt_prop (get_prop response ''result'') ''tools'')))
           | ListResources \<Rightarrow> Inr (Some (or_empty_array (opt_prop (get_prop response ''result'') ''resources'')))
           | CallTool n \<Rightarrow> Inr (get_prop response ''result'')
           | ReadResource \<Rightarrow> Inr (get_prop response ''result'')))"

text \<open>\<^verbatim>\<open>disconnect\<close> up to its \<^verbatim>\<open>await\<close>; the rest is the \<open>KShutdown\<close> case of \<open>resume\<close>.\<close>

definition disconnect :: "client \<Rightarrow> client" where
  "disconnect s =
     (if initialized s then (let (i, s1) = getNextRequestId s in sendRequest KShutdown i ''shutdown'' s1)
      else cleanup s)"

text \<open>The code after an \<^verbatim>\<open>await\<close> of \<^verbatim>\<open>sendRequest\<close>, run as a microtask.\<close>

fun resume :: "cont \<Rightarrow> outcome \<Rightarrow> client \<Rightarrow> client" where
  "resume (KInitialize n) (Resolved r) s = sendNotification n s"
| "resume (KInitialize n) (Rejected e) s = connect_settle n (Some e) s"
| "resume KShutdown out s = cleanup s"
| "resume (KVerb v) out s = s\<lparr>returned := returned s @ [(v, verb_result v out)]\<rparr>"

text \<open>
  The microtask queue: after every callback the runtime runs the queued continuations
  until none is left. A continuation only moves waiters from \<open>pendingRequests\<close> to the
  queue, so the queue empties.
\<close>

function drain :: "client \<Rightarrow> client" where
  "drain s =
     (case microtasks s of
        [] \<Rightarrow> s
      | (k, out) # ms \<Rightarrow> drain (resume k out (s\<lparr>microtasks := ms\<rparr>)))"
  by pat_completeness auto
termination
proof (relation "measure (\<lambda>s. length (pendingRequests s) + length (microtasks s))")
  show "wf (measure (\<lambda>s. length (pendingRequests s) + length (microtasks s)))"
    by simp
next
  fix s :: client and x ms k out
  assume q: "microtasks s = x # ms" and x: "(k, out) = x"
  have fold_len: "length (microtasks (foldl (\<lambda>t (i, k). settle k i e t) t0 ps))
      = length (microtasks t0) + length ps" for e t0 ps
    by (induction ps arbitrary: t0) (auto simp: settle_def)
  have "length (pendingRequests (resume k out t)) + length (microtasks (resume k out t))
      \<le> length (pendingRequests t) + length (microtasks t)" for t
    by (cases k; cases out)
      (auto simp: sendNotification_def connect_settle_def cleanup_def Let_def kill_def fold_len
        split: option.splits)
  from this[of "s\<lparr>microtasks := ms\<rparr>"] q
  show "(resume k out (s\<lparr>microtasks := ms\<rparr>), s)
      \<in> measure (\<lambda>s. length (pendingRequests s) + length (microtasks s))"
    by simp
qed

declare drain.simps [simp del]

text \<open>
  What reaches the object from outside: a call of one of its methods, data on the child's
  stdout, a write callback, a timer, or an event of a process object.
\<close>

datatype event =
    Connect spawn
  | Stdout string
  | Written nat bool
  | NotificationWritten bool
  | RequestTimeout nat
  | ForceKillTimeout
  | Exit nat
  | ProcessError nat
  | Disconnect
  | Call verb

fun handle :: "(jstext \<Rightarrow> json option) \<Rightarrow> event \<Rightarrow> client \<Rightarrow> client" where
  "handle parse (Connect sp) s = connect sp s"
| "handle parse (Stdout data) s = handleStdout parse data s"
| "handle parse (Written i failed) s = writeCallback i failed s"
| "handle parse (NotificationWritten failed) s = notificationCallback failed s"
| "handle parse (RequestTimeout i) s = requestTimeout i s"
| "handle parse ForceKillTimeout s = forceKillTimeout s"
| "handle parse (Exit h) s = exitHandler h s"
| "handle parse (ProcessError n) s = errorHandler n s"
| "handle parse Disconnect s = disconnect s"
| "handle parse (Call v) s = callVerb v s"

definition step :: "(jstext \<Rightarrow> json option) \<Rightarrow> client \<Rightarrow> event \<Rightarrow> client" where
  "step parse s ev = drain (handle parse ev s)"

definition run :: "(jstext \<Rightarrow> json option) \<Rightarrow> event list \<Rightarrow> client \<Rightarrow> client" where
  "run parse evs s = foldl (step parse) s evs"

section \<open>The Manager: class \<^verbatim>\<open>MCPManager\<close>\<close>

text \<open>
  \<^verbatim>\<open>src/mcp-manager.js\<close> holds the class twice, with the same methods and different
  default registrations; the methods are modelled once. A registered configuration, the
  optional \<^verbatim>\<open>customConfig\<close> of \<^verbatim>\<open>connectServer\<close> (an absent member is \<open>None\<close>; an absent
  \<^verbatim>\<open>env\<close> spreads to nothing), and the configuration handed to \<^verbatim>\<open>new MCPClient\<close>.
\<close>

record config =
  name :: string
  command :: string
  args :: "string list"
  env :: "(string \<times> string) list"
  cwd :: "string option"
  autoStart :: bool
  description :: string

record custom_config =
  custom_command :: "string option"
  custom_args :: "string list option"
  custom_env :: "(string \<times> string) list"
  custom_cwd :: "string option"

record mcp_config =
  mcp_command :: string
  mcp_args :: "string list"
  mcp_env :: "(string \<times> string) list"
  mcp_cwd :: "string option"

text \<open>
  The two maps of the manager in insertion order (a client object is named by its index
  in \<open>made\<close>), and the clients constructed so far: \<^verbatim>\<open>connect\<close> was called on each of them,
  which spawns its process.
\<close>

record manager =
  clients :: "(string \<times> nat) list"
  configs :: "(string \<times> config) list"
  made :: "mcp_config list"

datatype manager_error =
    NotRegistered string "string list"
  | FailedToConnect string err
  | NotConnected string
  | Raised err

datatype connect_answer = AlreadyConnected | Connected string nat

text \<open>
  What happens while the manager awaits \<^verbatim>\<open>client.connect()\<close> or \<^verbatim>\<open>client.disconnect()\<close>:
  how often the client emits \<^verbatim>\<open>disconnected\<close>, and the error thrown, if any.
\<close>

record client_run =
  disconnected_emitted :: nat
  thrown :: "err option"

definition registerServer :: "config \<Rightarrow> manager \<Rightarrow> manager" where
  "registerServer cfg m = m\<lparr>configs := AList.update (name cfg) cfg (configs m)\<rparr>"

text \<open>\<^verbatim>\<open>a || b\<close> on strings that may be absent: the empty string is falsy.\<close>

definition or_string :: "string option \<Rightarrow> string option \<Rightarrow> string option" where
  "or_string a b = (case a of Some x \<Rightarrow> if x \<noteq> [] then Some x else b | None \<Rightarrow> b)"

text \<open>\<^verbatim>\<open>{ ...config.env, ...customConfig.env }\<close>.\<close>

definition merge_env :: "(string \<times> string) list \<Rightarrow> (string \<times> string) list \<Rightarrow> (string \<times> string) list" where
  "merge_env base over = foldl (\<lambda>acc (k, v). AList.update k v acc) base over"

definition effective_config :: "config \<Rightarrow> custom_config \<Rightarrow> mcp_config" where
  "effective_config cfg cu =
     \<lparr> mcp_command = (case or_string (custom_command cu) (Some (command cfg)) of
                         Some x \<Rightarrow> x | None \<Rightarrow> command cfg),
       mcp_args = (case custom_args cu of Some xs \<Rightarrow> xs | None \<Rightarrow> args cfg),
       mcp_env = merge_env (env cfg) (custom_env cu),
       mcp_cwd = or_string (custom_cwd cu) (cwd cfg) \<rparr>"

text \<open>The listener that \<^verbatim>\<open>connectServer\<close> puts on \<^verbatim>\<open>disconnected\<close>.\<close>

definition on_disconnected :: "string \<Rightarrow> manager \<Rightarrow> manager" where
  "on_disconnected serverName m = m\<lparr>clients := AList.delete serverName (clients m)\<rparr>"

definition connectServer ::
  "string \<Rightarrow> custom_config \<Rightarrow> client_run \<Rightarrow> manager \<Rightarrow> (manager_error + connect_answer) \<times> manager" where
  "connectServer serverName customConfig r m =
     (if map_of (clients m) serverName \<noteq> None then (Inr AlreadyConnected, m)
      else
        (case map_of (configs m) serverName of
           None \<Rightarrow> (Inl (NotRegistered serverName (map fst (configs m))), m)
         | Some cfg \<Rightarrow>
             let c = length (made m);
                 m1 = m\<lparr>made := made m @ [effective_config cfg customConfig]\<rparr>;
                 m2 = (on_disconnected serverName ^^ disconnected_emitted r) m1
             in (case thrown r of
                   None \<Rightarrow>
                     (Inr (Connected serverName c),
                      m2\<lparr>clients := AList.update serverName c (clients m2)\<rparr>)
                 | Some e \<Rightarrow> (Inl (FailedToConnect serverName e), m2))))"

definition disconnectServer ::
  "string \<Rightarrow> client_run \<Rightarrow> manager \<Rightarrow> (manager_error + unit) \<times> manager" where
  "disconnectServer serverName r m =
     (case map_of (clients m) serverName of
        None \<Rightarrow> (Inl (NotConnected serverName), m)
      | Some c \<Rightarrow>
          let m1 = (on_disconnected serverName ^^ disconnected_emitted r) m
          in (case thrown r of
                None \<Rightarrow> (Inr (), m1\<lparr>clients := AList.delete serverName (clients m1)\<rparr>)
              | Some e \<Rightarrow> (Inl (Raised e), m1\<lparr>clients := AList.delete serverName (clients m1)\<rparr>)))"

text \<open>
  The result of \<^verbatim>\<open>listAllTools\<close> and \<^verbatim>\<open>listAllResources\<close> is an object literal filled by
  \<^verbatim>\<open>allTools[serverName] = ...\<close>: its own members (an association list for lookups; the
  order in which the runtime enumerates them is not modelled) and its prototype
  (\<open>None\<close>: still \<^verbatim>\<open>Object.prototype\<close>; \<open>Some JNull\<close>: \<^verbatim>\<open>null\<close>).
\<close>

record js_object =
  own :: "(string \<times> json) list"
  proto :: "json option"

definition empty_object :: js_object where
  "empty_object = \<lparr>own = [], proto = None\<rparr>"

text \<open>
  Whether the assignment \<^verbatim>\<open>obj['__proto__'] = v\<close> reaches the setter of
  \<^verbatim>\<open>Object.prototype\<close>: the object has no own member of that name, and neither has the
  parsed object that is its prototype (\<^verbatim>\<open>JSON.parse\<close> makes \<^verbatim>\<open>__proto__\<close> an ordinary
  member); a \<^verbatim>\<open>null\<close> prototype ends the chain before the setter.
\<close>

definition reaches_setter :: "js_object \<Rightarrow> bool" where
  "reaches_setter obj \<longleftrightarrow>
     map_of (own obj) ''__proto__'' = None \<and>
     (case proto obj of
        None \<Rightarrow> True
      | Some JNull \<Rightarrow> False
      | Some (JObj kvs) \<Rightarrow> map_of kvs ''__proto__'' = None
      | Some p \<Rightarrow> True)"

text \<open>
  \<^verbatim>\<open>obj[k] = v\<close>. Under the name \<^verbatim>\<open>__proto__\<close> the setter, when reached, makes an object,
  an array or \<^verbatim>\<open>null\<close> the prototype and ignores every other value; no member is
  created. Every other assignment sets the own member.
\<close>

definition set_prop :: "js_object \<Rightarrow> string \<Rightarrow> json \<Rightarrow> js_object" where
  "set_prop obj k v =
     (if k = ''__proto__'' \<and> reaches_setter obj then
        (case v of
           JObj kvs \<Rightarrow> obj\<lparr>proto := Some v\<rparr>
         | JArr xs \<Rightarrow> obj\<lparr>proto := Some v\<rparr>
         | JNull \<Rightarrow> obj\<lparr>proto := Some v\<rparr>
         | _ \<Rightarrow> obj)
      else obj\<lparr>own := AList.update k v (own obj)\<rparr>)"

text \<open>
  The log line \<^verbatim>\<open>`Found ${tools.length} tools`\<close> throws a TypeError: on \<^verbatim>\<open>null\<close> the read
  of \<^verbatim>\<open>length\<close> throws; an object may hold a \<^verbatim>\<open>length\<close> member that cannot be converted
  to a string; the length of a string or an array is a number, and of every other value
  \<^verbatim>\<open>undefined\<close>.
\<close>

definition length_unprintable :: "json \<Rightarrow> bool" where
  "length_unprintable v =
     (case v of
        JNull \<Rightarrow> True
      | JObj kvs \<Rightarrow> (case map_of kvs ''length'' of Some l \<Rightarrow> unprintable l | None \<Rightarrow> False)
      | _ \<Rightarrow> False)"

text \<open>
  The body of the loop for one entry of the map: \<open>answers c\<close> is what \<^verbatim>\<open>listTools()\<close>
  (\<^verbatim>\<open>listResources()\<close>) of client \<open>c\<close> gives, an error thrown or the value returned. In
  the \<^verbatim>\<open>try\<close> the value is stored and then the log line is printed; the \<^verbatim>\<open>catch\<close> stores
  the empty list, also when it was the log line that threw.
\<close>

definition list_entry :: "(nat \<Rightarrow> err + json) \<Rightarrow> js_object \<Rightarrow> string \<times> nat \<Rightarrow> js_object" where
  "list_entry answers acc p =
     (case answers (snd p) of
        Inr listed \<Rightarrow>
          let acc1 = set_prop acc (fst p) listed
          in if length_unprintable listed then set_prop acc1 (fst p) (JArr []) else acc1
      | Inl e \<Rightarrow> set_prop acc (fst p) (JArr []))"

text \<open>
  The loop runs over the live \<^verbatim>\<open>Map\<close>, and each turn awaits the client: meanwhile other
  operations of the manager may delete entries (the \<^verbatim>\<open>disconnected\<close> listener,
  \<^verbatim>\<open>disconnectServer\<close>) and set entries (\<^verbatim>\<open>connectServer\<close>). The map is held as the
  entries the iterator has passed and the entries still ahead of it; deleting removes an
  entry wherever it is, setting a present key replaces its value in place, setting an
  absent key appends the entry, ahead of the iterator.
\<close>

datatype map_op = MapSet string nat | MapDelete string

fun apply_op :: "(string \<times> nat) list \<times> (string \<times> nat) list \<Rightarrow> map_op \<Rightarrow> (string \<times> nat) list \<times> (string \<times> nat) list" where
  "apply_op (passed, ahead) (MapDelete k) = (AList.delete k passed, AList.delete k ahead)"
| "apply_op (passed, ahead) (MapSet k c) =
     (if map_of passed k \<noteq> None then (AList.update k c passed, ahead)
      else (passed, AList.update k c ahead))"

text \<open>
  The entries the loop visits, in order: \<open>during\<close> lists, await by await, what is done to
  the map while the loop waits (nothing once the list is used up).
\<close>

function visit_order ::
  "map_op list list \<Rightarrow> (string \<times> nat) list \<Rightarrow> (string \<times> nat) list \<Rightarrow> (string \<times> nat) list" where
  "visit_order during passed [] = []"
| "visit_order during passed (p # ahead) =
     p # visit_order (tl during)
           (fst (foldl apply_op (passed @ [p], ahead) (case during of [] \<Rightarrow> [] | ops # ds \<Rightarrow> ops)))
           (snd (foldl apply_op (passed @ [p], ahead) (case during of [] \<Rightarrow> [] | ops # ds \<Rightarrow> ops)))"
  by pat_completeness auto
termination
  by (relation "measures [\<lambda>(during, passed, ahead). length during, \<lambda>(during, passed, ahead). length ahead]")
    (auto split: list.splits)

definition listAllTools ::
  "(nat \<Rightarrow> err + json) \<Rightarrow> map_op list list \<Rightarrow> manager \<Rightarrow> manager_error + js_object" where
  "listAllTools answers during m =
     Inr (foldl (list_entry answers) empty_object (visit_order during [] (clients m)))"


definition demo_manager :: manager where
  "demo_manager =
     \<lparr> clients = [(''filesystem'', 0), (''nodit'', 1)],
       configs = [(''filesystem'', \<lparr>name = ''filesystem'', command = ''npx'',
                     args = [''-y'', ''@modelcontextprotocol/server-filesystem'', ''/tmp''], env = [],
                     cwd = None, autoStart = False,
                     description = ''File system operations in /tmp directory''\<rparr>),
                  (''nodit'', \<lparr>name = ''nodit'', command = ''npx'',
                     args = [''-y'', ''@noditlabs/nodit-mcp-server''], env = [],
                     cwd = None, autoStart = False,
                     description = ''Base MCP for other blockchain analytics in the system''\<rparr>)],
       made = [\<lparr>mcp_command = ''npx'',
                 mcp_args = [''-y'', ''@modelcontextprotocol/server-filesystem'', ''/tmp''],
                 mcp_env = [], mcp_cwd = None\<rparr>,
               \<lparr>mcp_command = ''npx'', mcp_args = [''-y'', ''@noditlabs/nodit-mcp-server''],
                 mcp_env = [], mcp_cwd = None\<rparr>] \<rparr>"


section \<open>Examples and vocabulary of the properties\<close>

text \<open>The value of \<^verbatim>\<open>JSON.parse\<close> on the lines that the examples below feed to the client.\<close>

definition init_reply :: json where
  "init_reply = JObj [(''jsonrpc'', JStr ''2.0''), (''id'', JNum 1), (''result'', JObj [])]"

definition second_reply :: json where
  "second_reply = JObj [(''jsonrpc'', JStr ''2.0''), (''id'', JNum 2), (''result'', JObj [])]"

definition odd_tools_reply :: json where
  "odd_tools_reply =
     JObj [(''jsonrpc'', JStr ''2.0''), (''id'', JNum 2), (''result'', JObj [(''tools'', JStr ''x'')])]"

definition server_request :: json where
  "server_request = JObj [(''jsonrpc'', JStr ''2.0''), (''id'', JNum 7), (''method'', JStr ''ping'')]"

definition error_reply :: json where
  "error_reply =
     JObj [(''jsonrpc'', JStr ''2.0''), (''id'', JNum 1),
           (''error'', JObj [(''code'', JNum (- 32601)), (''message'', JStr ''no'')])]"

definition odd_method :: json where
  "odd_method = JObj [(''jsonrpc'', JStr ''2.0''), (''method'', JObj [(''toString'', JNum 1)])]"

definition accent_reply :: json where
  "accent_reply =
     JObj [(''jsonrpc'', JStr ''2.0''), (''id'', JNum 1), (''result'', JStr [CHR 0xC3, CHR 0xA9])]"

definition replaced_reply :: json where
  "replaced_reply =
     JObj [(''jsonrpc'', JStr ''2.0''), (''id'', JNum 1),
           (''result'', JStr [CHR 0xEF, CHR 0xBF, CHR 0xBD, CHR 0xEF, CHR 0xBF, CHR 0xBD])]"

definition demo_parse :: "jstext \<Rightarrow> json option" where
  \<open>demo_parse =
     map_of
       [(toString ''{"jsonrpc":"2.0","id":1,"result":{}}'', init_reply),
        (toString ''{"jsonrpc":"2.0","id":2,"result":{}}'', second_reply),
        (toString ''{"jsonrpc":"2.0","id":2,"result":{"tools":"x"}}'', odd_tools_reply),
        (toString ''{"jsonrpc":"2.0","id":7,"method":"ping"}'', server_request),
        (toString ''{"jsonrpc":"2.0","id":1,"error":{"code":-32601,"message":"no"}}'', error_reply),
        (toString ''{"jsonrpc":"2.0","method":{"toString":1}}'', odd_method),
        (toString ''{"jsonrpc":"2.0","id":1,"result":"'' @ [0xE9] @ toString ''"}'', accent_reply),
        (toString ''{"jsonrpc":"2.0","id":1,"result":"'' @ [0xFFFD, 0xFFFD] @ toString ''"}'',
         replaced_reply)]\<close>

fun is_array :: "json \<Rightarrow> bool" where
  "is_array (JArr xs) = True"
| "is_array j = False"

text \<open>
  Counting for the \<^verbatim>\<open>disconnected\<close> signal: emissions so far, \<^verbatim>\<open>disconnect\<close> calls whose
  \<^verbatim>\<open>shutdown\<close> request is still pending or whose continuation is queued, and children that
  have exited and carried the \<^verbatim>\<open>'exit'\<close> handler. \<open>pending_ok\<close>: the keys of the pending
  table are distinct and were issued.
\<close>

definition disconnected_count :: "client \<Rightarrow> nat" where
  "disconnected_count s = length (filter (\<lambda>e. e = Disconnected) (emitted s))"

definition shutdowns_waiting :: "client \<Rightarrow> nat" where
  "shutdowns_waiting s = length (filter (\<lambda>p. snd p = KShutdown) (pendingRequests s))"

definition exits :: "client \<Rightarrow> nat" where
  "exits s = length (filter (\<lambda>c. exited c \<and> streams c) (children s))"

definition shutdowns_queued :: "client \<Rightarrow> nat" where
  "shutdowns_queued s = length (filter (\<lambda>p. fst p = KShutdown) (microtasks s))"

definition closings :: "client \<Rightarrow> nat" where
  "closings s = disconnected_count s + shutdowns_waiting s + shutdowns_queued s"

definition pending_ok :: "client \<Rightarrow> bool" where
  "pending_ok s \<longleftrightarrow> distinct (map fst (pendingRequests s)) \<and> (\<forall>i \<in> fst ` set (pendingRequests s). i < requestId s)"




text \<open>
  Counting the outcomes of request \<open>i\<close>: the calls of its \<^verbatim>\<open>resolve\<close> or \<^verbatim>\<open>reject\<close> other
  than the write-failure rejection (\<open>delivered\<close>), and the write-failure rejections. The
  invariant \<open>outcomes_ok\<close> ties them to the pending table and to the write callbacks still
  owed; \<open>grows s s'\<close> says that from \<open>s\<close> to \<open>s'\<close> only newly issued ids entered the table.
\<close>

definition delivered :: "nat \<Rightarrow> client \<Rightarrow> nat" where
  "delivered i s = length (filter (\<lambda>c. fst c = i \<and> snd c \<noteq> Rejected WriteFailed) (calls s))"

definition write_failures :: "nat \<Rightarrow> client \<Rightarrow> nat" where
  "write_failures i s = length (filter (\<lambda>c. fst c = i \<and> snd c = Rejected WriteFailed) (calls s))"

definition pending_ids :: "client \<Rightarrow> nat set" where
  "pending_ids s = fst ` set (pendingRequests s)"

definition outcomes_ok :: "client \<Rightarrow> bool" where
  "outcomes_ok s \<longleftrightarrow>
     pending_ok s \<and> distinct (writing s) \<and>
     (\<forall>i \<in> set (writing s). i < requestId s) \<and>
     (\<forall>c \<in> set (calls s). fst c < requestId s) \<and>
     (\<forall>i. (i \<in> pending_ids s \<longrightarrow> delivered i s = 0 \<and> write_failures i s = 0) \<and>
          (i \<in> set (writing s) \<longrightarrow> write_failures i s = 0) \<and>
          delivered i s \<le> 1 \<and> write_failures i s \<le> 1 \<and>
          (1 \<le> i \<and> i < requestId s \<and> i \<notin> pending_ids s \<longrightarrow> 1 \<le> delivered i s + write_failures i s))"

definition grows :: "client \<Rightarrow> client \<Rightarrow> bool" where
  "grows s s' \<longleftrightarrow>
     requestId s \<le> requestId s' \<and>
     pending_ids s' \<subseteq> pending_ids s \<union> {i. requestId s \<le> i \<and> i < requestId s'}"

section \<open>Evaluating the model\<close>

lemma drain_empty: "microtasks s = [] \<Longrightarrow> drain s = s"
  by (simp add: drain.simps)

lemma drain_next:
  "microtasks s = (k, out) # ms \<Longrightarrow> drain s = drain (resume k out (s\<lparr>microtasks := ms\<rparr>))"
  by (subst drain.simps) simp

lemmas client_defs =
  run_def step_def new_client_def connect_def initialize_def getNextRequestId_def
  sendRequest_def has_stdin_def settle_def connect_settle_def sendNotification_def
  notificationCallback_def callVerb_def name_unprintable_def method_of_def disconnect_def cleanup_def kill_def
  forceKillTimeout_def exitHandler_def errorHandler_def requestTimeout_def writeCallback_def
  handleStdout_def frame_def handleLine_def handleResponse_def pending_key_def
  truthy_opt_def trim_def is_ws_def toString_def utf8_lead_def verb_result_def
  opt_prop_def or_empty_array_def demo_parse_def init_reply_def second_reply_def
  odd_tools_reply_def server_request_def error_reply_def odd_method_def accent_reply_def replaced_reply_def drain_empty drain_next Let_def

section \<open>Properties of the Child Connection\<close>

subsection \<open>Bookkeeping of waiters and emissions\<close>

lemma filter_delete_distinct:
  "distinct (map fst ps) \<Longrightarrow> map_of ps i = Some k \<Longrightarrow>
   length (filter P ps) = length (filter P (AList.delete i ps)) + (if P (i, k) then 1 else 0)"
proof (induction ps)
  case Nil
  then show ?case by simp
next
  case (Cons p ps)
  obtain j k' where p: "p = (j, k')" by (cases p)
  show ?case
  proof (cases "j = i")
    case True
    with Cons.prems p have "k' = k" and "i \<notin> fst ` set ps" by auto
    then have "AList.delete i ps = ps"
      by (simp add: delete_id)
    with True p \<open>k' = k\<close> show ?thesis by simp
  next
    case False
    with Cons p show ?thesis by simp
  qed
qed

lemma filter_update_fresh:
  "length (filter P (AList.update i k ps)) \<le> length (filter P ps) + 1"
  by (induction ps) auto

lemma exits_update:
  "h < length xs \<Longrightarrow> P c = P (xs ! h) \<Longrightarrow>
   length (filter P (xs[h := c])) = length (filter P xs)"
proof (induction xs arbitrary: h)
  case Nil
  then show ?case by simp
next
  case (Cons x xs)
  then show ?case by (cases h) auto
qed

lemma exits_kill: "exits (kill h sig s) = exits s"
  by (simp add: kill_def exits_def exits_update)

lemma fold_settle_fields:
  "emitted (foldl (\<lambda>t (i, k). settle k i e t) t0 ps) = emitted t0"
  "children (foldl (\<lambda>t (i, k). settle k i e t) t0 ps) = children t0"
  "microtasks (foldl (\<lambda>t (i, k). settle k i e t) t0 ps) = microtasks t0 @ map (\<lambda>(i, k). (k, e)) ps"
  by (induction ps arbitrary: t0) (auto simp: settle_def)

lemma filter_swap_count:
  "length (filter ((\<lambda>p. fst p = K) \<circ> (\<lambda>(i, k). (k, e))) ps) = length (filter (\<lambda>p. snd p = K) ps)"
  by (induction ps) auto

lemma cleanup_closings: "closings (cleanup s) = closings s + 1"
  by (simp add: cleanup_def closings_def disconnected_count_def shutdowns_waiting_def
      shutdowns_queued_def Let_def fold_settle_fields filter_swap_count kill_def
      split: option.splits)

lemma cleanup_exits: "exits (cleanup s) = exits s"
proof -
  have "children (cleanup s) = children (case process s of Some h \<Rightarrow> kill h SIGTERM s | None \<Rightarrow> s)"
    by (simp add: cleanup_def Let_def fold_settle_fields split: option.splits)
  then show ?thesis
    using exits_kill[of _ SIGTERM s] by (simp add: exits_def split: option.splits)
qed

lemma cleanup_keys: "pending_ok (cleanup s)"
  by (simp add: cleanup_def pending_ok_def Let_def)


lemma resume_closings:
  "closings (resume k out s) = closings s + (if k = KShutdown then 1 else 0)"
proof (cases k)
  case (KInitialize n)
  then show ?thesis
    by (cases out)
      (simp_all add: sendNotification_def connect_settle_def closings_def
        disconnected_count_def shutdowns_waiting_def shutdowns_queued_def)
next
  case KShutdown
  then show ?thesis by (simp add: cleanup_closings)
next
  case (KVerb v)
  then show ?thesis
    by (simp add: closings_def disconnected_count_def shutdowns_waiting_def shutdowns_queued_def)
qed

lemma resume_exits: "exits (resume k out s) = exits s"
proof (cases k)
  case (KInitialize n)
  then show ?thesis
    by (cases out) (simp_all add: sendNotification_def connect_settle_def exits_def)
next
  case KShutdown
  then show ?thesis by (simp add: cleanup_exits)
next
  case (KVerb v)
  then show ?thesis by (simp add: exits_def)
qed

lemma resume_keys: "pending_ok s \<Longrightarrow> pending_ok (resume k out s)"
proof (cases k)
  case (KInitialize n)
  assume "pending_ok s"
  with KInitialize show ?thesis
    by (cases out) (simp_all add: sendNotification_def connect_settle_def pending_ok_def)
next
  case KShutdown
  then show ?thesis by (simp add: cleanup_keys)
next
  case (KVerb v)
  assume "pending_ok s"
  with KVerb show ?thesis by (simp add: pending_ok_def)
qed

lemma drain_closings:
  "closings (drain s) = closings s \<and> exits (drain s) = exits s
   \<and> (pending_ok s \<longrightarrow> pending_ok (drain s)) \<and> microtasks (drain s) = []"
proof (induction s rule: drain.induct)
  case (1 s)
  show ?case
  proof (cases "microtasks s")
    case Nil
    then show ?thesis by (simp add: drain_empty)
  next
    case (Cons x ms)
    obtain k out where x: "x = (k, out)" by (cases x)
    let ?t = "s\<lparr>microtasks := ms\<rparr>"
    have ih: "closings (drain (resume k out ?t)) = closings (resume k out ?t)
        \<and> exits (drain (resume k out ?t)) = exits (resume k out ?t)
        \<and> (pending_ok (resume k out ?t) \<longrightarrow> pending_ok (drain (resume k out ?t)))
        \<and> microtasks (drain (resume k out ?t)) = []"
      by (rule "1.IH"[OF Cons x[symmetric]])
    have d: "drain s = drain (resume k out ?t)"
      using Cons x by (simp add: drain_next)
    have c: "closings s = closings ?t + (if k = KShutdown then 1 else 0)"
      using Cons x by (simp add: closings_def disconnected_count_def shutdowns_waiting_def shutdowns_queued_def)
    have e: "exits ?t = exits s" by (simp add: exits_def)
    have kd: "pending_ok ?t = pending_ok s" by (simp add: pending_ok_def)
    show ?thesis
      using ih d c e kd resume_closings[of k out ?t] resume_exits[of k out ?t] resume_keys[of ?t k out]
      by simp
  qed
qed


lemma update_fresh: "i \<notin> fst ` set ps \<Longrightarrow> AList.update i k ps = ps @ [(i, k)]"
  by (induction ps) auto

lemma settle_closings:
  "closings (settle k i out s) = closings s + (if k = KShutdown then 1 else 0)"
  by (simp add: settle_def closings_def disconnected_count_def shutdowns_waiting_def shutdowns_queued_def)

lemma take_waiter_closings:
  assumes "pending_ok s" and "map_of (pendingRequests s) i = Some k"
  shows "closings (settle k i out (s\<lparr>pendingRequests := AList.delete i (pendingRequests s)\<rparr>)) = closings s"
    and "pending_ok (settle k i out (s\<lparr>pendingRequests := AList.delete i (pendingRequests s)\<rparr>))"
    and "exits (settle k i out (s\<lparr>pendingRequests := AList.delete i (pendingRequests s)\<rparr>)) = exits s"
proof -
  have d: "distinct (map fst (pendingRequests s))"
    using assms(1) by (simp add: pending_ok_def)
  from filter_delete_distinct[OF d assms(2), of "\<lambda>p. snd p = KShutdown"]
  show "closings (settle k i out (s\<lparr>pendingRequests := AList.delete i (pendingRequests s)\<rparr>)) = closings s"
    by (simp add: settle_def closings_def disconnected_count_def shutdowns_waiting_def shutdowns_queued_def)
  show "pending_ok (settle k i out (s\<lparr>pendingRequests := AList.delete i (pendingRequests s)\<rparr>))"
  proof -
    have 1: "distinct (map fst (AList.delete i (pendingRequests s)))"
      using d by (rule distinct_delete)
    have 2: "set (AList.delete i (pendingRequests s)) \<subseteq> set (pendingRequests s)"
      by (auto simp: AList.delete_eq)
    show ?thesis
      using assms(1) 1 2 by (auto simp: settle_def pending_ok_def)
  qed
  show "exits (settle k i out (s\<lparr>pendingRequests := AList.delete i (pendingRequests s)\<rparr>)) = exits s"
    by (simp add: settle_def exits_def)
qed

lemma issue_closings:
  assumes "pending_ok s"
  shows "closings (sendRequest k (requestId s) m (s\<lparr>requestId := requestId s + 1\<rparr>))
      = closings s + (if k = KShutdown then 1 else 0)"
    and "pending_ok (sendRequest k (requestId s) m (s\<lparr>requestId := requestId s + 1\<rparr>))"
    and "exits (sendRequest k (requestId s) m (s\<lparr>requestId := requestId s + 1\<rparr>)) = exits s"
proof -
  have fresh: "requestId s \<notin> fst ` set (pendingRequests s)"
    using assms by (auto simp: pending_ok_def)
  show "closings (sendRequest k (requestId s) m (s\<lparr>requestId := requestId s + 1\<rparr>))
      = closings s + (if k = KShutdown then 1 else 0)"
    using fresh
    by (simp add: sendRequest_def settle_def update_fresh closings_def disconnected_count_def
        shutdowns_waiting_def shutdowns_queued_def)
  show "pending_ok (sendRequest k (requestId s) m (s\<lparr>requestId := requestId s + 1\<rparr>))"
    using assms fresh
    by (auto simp: sendRequest_def settle_def update_fresh pending_ok_def less_Suc_eq)
  show "exits (sendRequest k (requestId s) m (s\<lparr>requestId := requestId s + 1\<rparr>)) = exits s"
    by (simp add: sendRequest_def settle_def exits_def)
qed


lemma handleResponse_closings:
  assumes "pending_ok s" and "handleResponse r s = Inr s'"
  shows "closings s' = closings s \<and> exits s' = exits s \<and> pending_ok s'"
proof -
  let ?s0 = "s\<lparr>logged := logged s @ [ReceivedResponse r]\<rparr>"
  have ok0: "pending_ok ?s0" using assms(1) by (simp add: pending_ok_def)
  have c0: "closings ?s0 = closings s" "exits ?s0 = exits s"
    by (simp_all add: closings_def disconnected_count_def shutdowns_waiting_def
        shutdowns_queued_def exits_def)
  have note_fields: "closings (?s0\<lparr>logged := l, emitted := emitted ?s0 @ [Notification r]\<rparr>) = closings s"
    "exits (?s0\<lparr>logged := l, emitted := emitted ?s0 @ [Notification r]\<rparr>) = exits s"
    "pending_ok (?s0\<lparr>logged := l, emitted := emitted ?s0 @ [Notification r]\<rparr>)" for l
    using assms(1)
    by (simp_all add: closings_def disconnected_count_def shutdowns_waiting_def
        shutdowns_queued_def exits_def pending_ok_def)
  show ?thesis
    using assms(2) ok0 c0 note_fields
      take_waiter_closings[OF ok0]
    by (auto simp: handleResponse_def Let_def split: if_splits option.splits)
qed


lemma plain_fields:
  "closings (s\<lparr>logged := l\<rparr>) = closings s" "exits (s\<lparr>logged := l\<rparr>) = exits s"
  "pending_ok (s\<lparr>logged := l\<rparr>) = pending_ok s"
  "closings (s\<lparr>buffer := b\<rparr>) = closings s" "exits (s\<lparr>buffer := b\<rparr>) = exits s"
  "pending_ok (s\<lparr>buffer := b\<rparr>) = pending_ok s"
  "closings (s\<lparr>writing := w\<rparr>) = closings s" "exits (s\<lparr>writing := w\<rparr>) = exits s"
  "pending_ok (s\<lparr>writing := w\<rparr>) = pending_ok s"
  "closings (s\<lparr>calls := c\<rparr>) = closings s" "exits (s\<lparr>calls := c\<rparr>) = exits s"
  "pending_ok (s\<lparr>calls := c\<rparr>) = pending_ok s"
  "closings (s\<lparr>returned := r\<rparr>) = closings s" "exits (s\<lparr>returned := r\<rparr>) = exits s"
  "pending_ok (s\<lparr>returned := r\<rparr>) = pending_ok s"
  "closings (s\<lparr>notifying := n\<rparr>) = closings s" "exits (s\<lparr>notifying := n\<rparr>) = exits s"
  "pending_ok (s\<lparr>notifying := n\<rparr>) = pending_ok s"
  "closings (s\<lparr>initialized := b'\<rparr>) = closings s" "exits (s\<lparr>initialized := b'\<rparr>) = exits s"
  "pending_ok (s\<lparr>initialized := b'\<rparr>) = pending_ok s"
  "closings (s\<lparr>killTimers := t\<rparr>) = closings s" "exits (s\<lparr>killTimers := t\<rparr>) = exits s"
  "pending_ok (s\<lparr>killTimers := t\<rparr>) = pending_ok s"
  "closings (s\<lparr>connects := cs\<rparr>) = closings s" "exits (s\<lparr>connects := cs\<rparr>) = exits s"
  "pending_ok (s\<lparr>connects := cs\<rparr>) = pending_ok s"
  "closings (s\<lparr>process := p\<rparr>) = closings s" "exits (s\<lparr>process := p\<rparr>) = exits s"
  "pending_ok (s\<lparr>process := p\<rparr>) = pending_ok s"
  "closings (s\<lparr>children := ch\<rparr>) = closings s"
  "pending_ok (s\<lparr>children := ch\<rparr>) = pending_ok s"
  by (simp_all add: closings_def disconnected_count_def shutdowns_waiting_def
      shutdowns_queued_def exits_def pending_ok_def)

lemma connect_settle_fields:
  "closings (connect_settle n r s) = closings s" "exits (connect_settle n r s) = exits s"
  "pending_ok (connect_settle n r s) = pending_ok s"
  by (simp_all add: connect_settle_def plain_fields)

lemma kill_fields:
  "closings (kill h sig s) = closings s" "pending_ok (kill h sig s) = pending_ok s"
  by (simp_all add: kill_def plain_fields)

lemma handleLine_closings:
  assumes "pending_ok s"
  shows "closings (handleLine parse s l) = closings s \<and> exits (handleLine parse s l) = exits s
    \<and> pending_ok (handleLine parse s l)"
  using assms handleResponse_closings[OF assms]
  by (auto simp: handleLine_def plain_fields split: option.splits sum.splits)

lemma handleLines_closings:
  "pending_ok s \<Longrightarrow>
   closings (foldl (handleLine parse) s ls) = closings s
   \<and> exits (foldl (handleLine parse) s ls) = exits s
   \<and> pending_ok (foldl (handleLine parse) s ls)"
proof (induction ls arbitrary: s)
  case Nil
  then show ?case by simp
next
  case (Cons l ls)
  from handleLine_closings[OF Cons.prems, of parse l] Cons.IH[of "handleLine parse s l"]
  show ?case by simp
qed

lemma handleStdout_closings:
  assumes "pending_ok s"
  shows "closings (handleStdout parse data s) = closings s
    \<and> exits (handleStdout parse data s) = exits s \<and> pending_ok (handleStdout parse data s)"
proof -
  obtain ls rest where f: "frame (buffer s) data = (ls, rest)" by (cases "frame (buffer s) data")
  have "pending_ok (s\<lparr>buffer := rest\<rparr>)" using assms by (simp add: plain_fields)
  from handleLines_closings[OF this, of parse ls] f show ?thesis
    by (simp add: handleStdout_def plain_fields)
qed

lemma exits_append_live: "\<not> exited c \<Longrightarrow> exits (s\<lparr>children := children s @ [c]\<rparr>) = exits s"
  by (simp add: exits_def)

lemma connect_closings:
  assumes "pending_ok s"
  shows "closings (connect sp s) = closings s \<and> exits (connect sp s) = exits s
    \<and> pending_ok (connect sp s)"
proof (cases sp)
  case SpawnThrows
  then show ?thesis using assms
    by (simp add: connect_def Let_def connect_settle_fields plain_fields)
next
  case SpawnNoStreams
  have "children (connect_settle n r t) = children t" for n r t
    by (simp add: connect_settle_def)
  with SpawnNoStreams show ?thesis using assms
    by (simp add: connect_def Let_def connect_settle_fields(1,3) plain_fields exits_def)
next
  case Spawned
  let ?t = "s\<lparr>connects := connects s @ [None],
      children := children s @ [\<lparr>streams = True, killed = False, exited = False, received = []\<rparr>],
      process := Some (length (children s))\<rparr>"
  have ok: "pending_ok ?t" using assms by (simp add: pending_ok_def)
  have c: "closings ?t = closings s" "exits ?t = exits s"
    by (simp_all add: closings_def disconnected_count_def shutdowns_waiting_def
        shutdowns_queued_def exits_def)
  have r: "requestId ?t = requestId s" by simp
  from issue_closings[OF ok, of "KInitialize (length (connects s))" "''initialize''"] c Spawned
  show ?thesis
    by (simp add: connect_def Let_def initialize_def getNextRequestId_def)
qed


lemma filter_update_new:
  "h < length xs \<Longrightarrow> \<not> P (xs ! h) \<Longrightarrow> P c \<Longrightarrow>
   length (filter P (xs[h := c])) = length (filter P xs) + 1"
proof (induction xs arbitrary: h)
  case Nil
  then show ?case by simp
next
  case (Cons x xs)
  then show ?case by (cases h) auto
qed

lemma handle_closings:
  assumes "pending_ok s"
  shows "closings (handle parse ev s) + exits s
      = closings s + exits (handle parse ev s) + (if ev = Disconnect then 1 else 0)
    \<and> pending_ok (handle parse ev s)"
proof (cases ev)
  case (Connect sp)
  then show ?thesis using connect_closings[OF assms, of sp] by simp
next
  case (Stdout data)
  then show ?thesis using handleStdout_closings[OF assms, of parse data] by simp
next
  case (Written i failed)
  have ok: "pending_ok (s\<lparr>writing := w\<rparr>)" for w using assms by (simp add: plain_fields)
  show ?thesis
    using Written assms take_waiter_closings[OF ok]
    by (auto simp: writeCallback_def Let_def plain_fields split: option.splits)
next
  case (NotificationWritten failed)
  then show ?thesis using assms
    by (auto simp: notificationCallback_def Let_def plain_fields connect_settle_fields split: list.splits)
next
  case (RequestTimeout i)
  then show ?thesis
    using assms take_waiter_closings[OF assms]
    by (auto simp: requestTimeout_def split: option.splits)
next
  case ForceKillTimeout
  then show ?thesis using assms
    by (auto simp: forceKillTimeout_def Let_def plain_fields kill_fields exits_kill split: option.splits)
next
  case (Exit h)
  show ?thesis
  proof (cases "h < length (children s) \<and> \<not> exited (children s ! h)")
    case True
    let ?t = "s\<lparr>children := (children s)[h := (children s ! h)\<lparr>exited := True\<rparr>]\<rparr>"
    show ?thesis
    proof (cases "streams (children s ! h)")
      case streams: True
      have "exits ?t = exits s + 1"
        using True streams by (simp add: exits_def filter_update_new)
      then show ?thesis
        using True streams Exit
        by (simp add: exitHandler_def Let_def cleanup_closings cleanup_exits cleanup_keys plain_fields)
    next
      case False
      have "exits ?t = exits s"
        using True False by (simp add: exits_def exits_update)
      then show ?thesis
        using True False Exit assms
        by (simp add: exitHandler_def Let_def plain_fields)
    qed
  next
    case False
    then show ?thesis using Exit assms by (auto simp: exitHandler_def)
  qed
next
  case (ProcessError n)
  then show ?thesis using assms by (simp add: errorHandler_def connect_settle_fields)
next
  case Disconnect
  then show ?thesis
    using assms issue_closings[OF assms, of KShutdown "''shutdown''"]
    by (simp add: disconnect_def getNextRequestId_def cleanup_closings cleanup_exits cleanup_keys)
next
  case (Call v)
  then show ?thesis
    using assms issue_closings[OF assms, of "KVerb v" "method_of v"]
    by (simp add: callVerb_def getNextRequestId_def plain_fields)
qed


lemma step_closings:
  assumes "pending_ok s"
  shows "closings (step parse s ev) + exits s
      = closings s + exits (step parse s ev) + (if ev = Disconnect then 1 else 0)
    \<and> pending_ok (step parse s ev) \<and> microtasks (step parse s ev) = []"
  using handle_closings[OF assms, of parse ev] drain_closings[of "handle parse ev s"]
  by (simp add: step_def)


lemma run_closings:
  "pending_ok s \<Longrightarrow> microtasks s = [] \<Longrightarrow>
   closings (run parse evs s) + exits s
     = closings s + exits (run parse evs s) + length (filter (\<lambda>ev. ev = Disconnect) evs)
   \<and> pending_ok (run parse evs s) \<and> microtasks (run parse evs s) = []"
proof (induction evs arbitrary: s)
  case Nil
  then show ?case by (simp add: run_def)
next
  case (Cons ev evs)
  from step_closings[OF Cons.prems(1), of parse ev]
  have st: "closings (step parse s ev) + exits s
      = closings s + exits (step parse s ev) + (if ev = Disconnect then 1 else 0)"
    and ok: "pending_ok (step parse s ev)" and q: "microtasks (step parse s ev) = []"
    by simp_all
  have r: "run parse (ev # evs) s = run parse evs (step parse s ev)"
    by (simp add: run_def)
  from Cons.IH[OF ok q] st r show ?case
    by (cases "ev = Disconnect") simp_all
qed

subsection \<open>Outcomes of a request\<close>


lemma no_calls_yet:
  "\<forall>c \<in> set cs. fst c < (r::nat) \<Longrightarrow> filter (\<lambda>c. fst c = r \<and> P c) cs = []"
  by (induction cs) auto

lemma counts_append:
  "delivered i (s\<lparr>calls := calls s @ [(j, out)]\<rparr>)
     = delivered i s + (if i = j \<and> out \<noteq> Rejected WriteFailed then 1 else 0)"
  "write_failures i (s\<lparr>calls := calls s @ [(j, out)]\<rparr>)
     = write_failures i s + (if i = j \<and> out = Rejected WriteFailed then 1 else 0)"
  by (auto simp: delivered_def write_failures_def)

lemma ids_delete: "fst ` set (AList.delete i ps) = fst ` set ps - {i}"
  by (auto simp: AList.delete_eq)

lemma ok_take:
  assumes "outcomes_ok s" and "map_of (pendingRequests s) i0 = Some k"
    and inw: "out = Rejected WriteFailed \<Longrightarrow> i0 \<notin> set (writing s)"
  shows "outcomes_ok (settle k i0 out (s\<lparr>pendingRequests := AList.delete i0 (pendingRequests s)\<rparr>))"
proof -
  let ?s' = "settle k i0 out (s\<lparr>pendingRequests := AList.delete i0 (pendingRequests s)\<rparr>)"
  have i0: "i0 \<in> pending_ids s"
    using assms(2) by (auto simp: pending_ids_def dest: map_of_SomeD intro: rev_image_eqI)
  have po: "pending_ok s" using assms(1) by (simp add: outcomes_ok_def)
  have po': "pending_ok ?s'" using take_waiter_closings(2)[OF po assms(2)] .
  have ids: "pending_ids ?s' = pending_ids s - {i0}"
    by (simp add: pending_ids_def settle_def ids_delete)
  have flds: "writing ?s' = writing s" "requestId ?s' = requestId s"
    "calls ?s' = calls s @ [(i0, out)]"
    by (simp_all add: settle_def)
  have lt: "i0 < requestId s"
    using po i0 by (auto simp: pending_ok_def pending_ids_def)
  have d: "delivered i ?s' = delivered i s + (if i = i0 \<and> out \<noteq> Rejected WriteFailed then 1 else 0)"
    and w: "write_failures i ?s' = write_failures i s + (if i = i0 \<and> out = Rejected WriteFailed then 1 else 0)"
    for i
    by (auto simp: settle_def delivered_def write_failures_def)
  have z: "delivered i0 s = 0" "write_failures i0 s = 0"
    using assms(1) i0 by (auto simp: outcomes_ok_def)
  show ?thesis
    unfolding outcomes_ok_def
    using assms(1) po' ids flds lt d w z inw
    by (auto simp: outcomes_ok_def)
qed


lemma ok_cong:
  "pendingRequests s' = pendingRequests s \<Longrightarrow> writing s' = writing s \<Longrightarrow> calls s' = calls s \<Longrightarrow>
   requestId s' = requestId s \<Longrightarrow> outcomes_ok s' = outcomes_ok s"
  by (simp add: outcomes_ok_def pending_ok_def pending_ids_def delivered_def write_failures_def)

lemma ok_issue:
  assumes "outcomes_ok s"
  shows "outcomes_ok (sendRequest k (requestId s) m (s\<lparr>requestId := requestId s + 1\<rparr>))"
proof -
  let ?r = "requestId s"
  let ?t = "s\<lparr>requestId := ?r + 1\<rparr>"
  have po: "pending_ok s" using assms by (simp add: outcomes_ok_def)
  have fresh: "?r \<notin> fst ` set (pendingRequests s)"
    using po by (auto simp: pending_ok_def)
  have fresh': "?r \<notin> pending_ids s"
    using fresh by (simp add: pending_ids_def)
  have nc: "delivered ?r s = 0" "write_failures ?r s = 0"
    using assms no_calls_yet[of "calls s" ?r]
    by (simp_all add: outcomes_ok_def delivered_def write_failures_def)
  have nw: "?r \<notin> set (writing s)"
    using assms by (auto simp: outcomes_ok_def)
  have po': "pending_ok (sendRequest k ?r m ?t)"
    using issue_closings(2)[OF po] .
  show ?thesis
  proof (cases "has_stdin ?t")
    case True
    then have f: "pendingRequests (sendRequest k ?r m ?t) = pendingRequests s @ [(?r, k)]"
      "writing (sendRequest k ?r m ?t) = writing s @ [?r]"
      "calls (sendRequest k ?r m ?t) = calls s" "requestId (sendRequest k ?r m ?t) = ?r + 1"
      using fresh by (simp_all add: sendRequest_def update_fresh)
    have ids: "pending_ids (sendRequest k ?r m ?t) = insert ?r (pending_ids s)"
      using f(1) by (simp add: pending_ids_def)
    have c: "delivered i (sendRequest k ?r m ?t) = delivered i s"
      "write_failures i (sendRequest k ?r m ?t) = write_failures i s" for i
      using f(3) by (simp_all add: delivered_def write_failures_def)
    show ?thesis
      unfolding outcomes_ok_def
      using assms po' f ids c nc nw fresh'
      by (auto simp: outcomes_ok_def less_Suc_eq)
  next
    case False
    then have f: "pendingRequests (sendRequest k ?r m ?t) = pendingRequests s"
      "writing (sendRequest k ?r m ?t) = writing s"
      "calls (sendRequest k ?r m ?t) = calls s @ [(?r, Rejected StdinNotAvailable)]"
      "requestId (sendRequest k ?r m ?t) = ?r + 1"
      by (simp_all add: sendRequest_def settle_def)
    have ids: "pending_ids (sendRequest k ?r m ?t) = pending_ids s"
      using f(1) by (simp add: pending_ids_def)
    have c: "delivered i (sendRequest k ?r m ?t) = delivered i s + (if i = ?r then 1 else 0)"
      "write_failures i (sendRequest k ?r m ?t) = write_failures i s" for i
      using f(3) by (auto simp: delivered_def write_failures_def)
    show ?thesis
      unfolding outcomes_ok_def
      using assms po' f ids c nc nw fresh'
      by (auto simp: outcomes_ok_def less_Suc_eq)
  qed
qed


lemma ok_write:
  assumes "outcomes_ok s"
  shows "outcomes_ok (writeCallback i0 failed s)"
proof (cases "i0 \<in> set (writing s)")
  case False
  then show ?thesis using assms by (simp add: writeCallback_def)
next
  case True
  let ?s1 = "s\<lparr>writing := remove1 i0 (writing s)\<rparr>"
  have dw: "distinct (writing s)" using assms by (simp add: outcomes_ok_def)
  have out: "i0 \<notin> set (writing ?s1)" using dw by simp
  have sub: "set (writing ?s1) \<subseteq> set (writing s)" using set_remove1_subset[of i0 "writing s"] by simp
  have ok1: "outcomes_ok ?s1"
    using assms sub dw
    by (auto simp: outcomes_ok_def pending_ok_def pending_ids_def delivered_def write_failures_def)
  show ?thesis
  proof (cases failed)
    case False
    then show ?thesis using True ok1 by (simp add: writeCallback_def)
  next
    case failed: True
    show ?thesis
    proof (cases "map_of (pendingRequests ?s1) i0")
      case (Some k)
      from ok_take[OF ok1 Some, of "Rejected WriteFailed"] out
      show ?thesis using True failed Some by (simp add: writeCallback_def)
    next
      case None
      let ?s2 = "?s1\<lparr>calls := calls ?s1 @ [(i0, Rejected WriteFailed)]\<rparr>"
      have notp: "i0 \<notin> pending_ids s"
        using None by (simp add: pending_ids_def map_of_eq_None_iff)
      have z: "write_failures i0 s = 0" using assms True by (auto simp: outcomes_ok_def)
      have lt: "i0 < requestId s" using assms True by (auto simp: outcomes_ok_def)
      have c: "delivered i ?s2 = delivered i s"
        "write_failures i ?s2 = write_failures i s + (if i = i0 then 1 else 0)" for i
        by (auto simp: delivered_def write_failures_def)
      have ids: "pending_ids ?s2 = pending_ids s" by (simp add: pending_ids_def)
      have po: "pending_ok ?s2" using assms by (simp add: outcomes_ok_def pending_ok_def)
      have "outcomes_ok ?s2"
        unfolding outcomes_ok_def
        using assms c ids po z lt notp out sub dw
        by (auto simp: outcomes_ok_def)
      then show ?thesis using True failed None by (simp add: writeCallback_def)
    qed
  qed
qed

lemma count_key_distinct:
  "distinct (map fst ps) \<Longrightarrow>
   length (filter (\<lambda>p. fst p = i) ps) = (if i \<in> fst ` set ps then 1 else 0)"
  by (induction ps) (auto simp: rev_image_eqI)

lemma fold_settle_calls:
  "calls (foldl (\<lambda>t (i, k). settle k i e t) t0 ps) = calls t0 @ map (\<lambda>(i, k). (i, e)) ps"
  "writing (foldl (\<lambda>t (i, k). settle k i e t) t0 ps) = writing t0"
  "requestId (foldl (\<lambda>t (i, k). settle k i e t) t0 ps) = requestId t0"
  by (induction ps arbitrary: t0) (auto simp: settle_def)

lemma ok_cleanup:
  assumes "outcomes_ok s"
  shows "outcomes_ok (cleanup s)"
proof -
  let ?ps = "pendingRequests s"
  have f: "pendingRequests (cleanup s) = []" "writing (cleanup s) = writing s"
    "requestId (cleanup s) = requestId s"
    "calls (cleanup s) = calls s @ map (\<lambda>(i, k). (i, Rejected ConnectionClosed)) ?ps"
    by (simp_all add: cleanup_def Let_def fold_settle_calls kill_def split: option.splits)
  have d: "distinct (map fst ?ps)" and b: "\<forall>i \<in> fst ` set ?ps. i < requestId s"
    using assms by (simp_all add: outcomes_ok_def pending_ok_def)
  have cnt: "length (filter (\<lambda>c. fst c = i \<and> snd c \<noteq> Rejected WriteFailed)
        (map (\<lambda>(i, k). (i, Rejected ConnectionClosed)) ?ps)) = (if i \<in> pending_ids s then 1 else 0)"
    "filter (\<lambda>c. fst c = i \<and> snd c = Rejected WriteFailed)
        (map (\<lambda>(i, k). (i, Rejected ConnectionClosed)) ?ps) = []" for i
  proof -
    have a: "filter (\<lambda>c. fst c = i \<and> snd c \<noteq> Rejected WriteFailed)
        (map (\<lambda>(i, k). (i, Rejected ConnectionClosed)) ps)
        = map (\<lambda>(i, k). (i, Rejected ConnectionClosed)) (filter (\<lambda>p. fst p = i) ps)"
      for ps :: "(nat \<times> cont) list"
      by (induction ps) auto
    show "length (filter (\<lambda>c. fst c = i \<and> snd c \<noteq> Rejected WriteFailed)
        (map (\<lambda>(i, k). (i, Rejected ConnectionClosed)) ?ps)) = (if i \<in> pending_ids s then 1 else 0)"
      using count_key_distinct[OF d, of i] by (simp add: a pending_ids_def)
    have b: "filter (\<lambda>c. fst c = i \<and> snd c = Rejected WriteFailed)
        (map (\<lambda>(i, k). (i, Rejected ConnectionClosed)) ps) = []"
      for ps :: "(nat \<times> cont) list"
      by (induction ps) auto
    show "filter (\<lambda>c. fst c = i \<and> snd c = Rejected WriteFailed)
        (map (\<lambda>(i, k). (i, Rejected ConnectionClosed)) ?ps) = []"
      by (rule b)
  qed
  have c: "delivered i (cleanup s) = delivered i s + (if i \<in> pending_ids s then 1 else 0)"
    "write_failures i (cleanup s) = write_failures i s" for i
    using cnt[of i] by (simp_all add: delivered_def write_failures_def f(4))
  have ids: "pending_ids (cleanup s) = {}" by (simp add: pending_ids_def f(1))
  have calls_lt: "\<forall>c \<in> set (calls (cleanup s)). fst c < requestId s"
    using assms b by (auto simp: f(4) outcomes_ok_def)
  show ?thesis
    unfolding outcomes_ok_def
    using assms c ids calls_lt f(1,2,3) cleanup_keys[of s]
    by (auto simp: outcomes_ok_def)
qed


lemma grows_refl: "grows s s"
  by (simp add: grows_def)

lemma grows_trans: "grows s t \<Longrightarrow> grows t u \<Longrightarrow> grows s u"
  by (fastforce simp: grows_def)

lemma grows_cong:
  "pendingRequests s' = pendingRequests s \<Longrightarrow> requestId s' = requestId s \<Longrightarrow> grows s s'"
  by (simp add: grows_def pending_ids_def)

lemma grows_take:
  "grows s (settle k i out (s\<lparr>pendingRequests := AList.delete i (pendingRequests s)\<rparr>))"
  by (auto simp: grows_def pending_ids_def settle_def ids_delete)

lemma grows_issue:
  "grows s (sendRequest k (requestId s) m (s\<lparr>requestId := requestId s + 1\<rparr>))"
  by (auto simp: grows_def pending_ids_def sendRequest_def settle_def dom_update)

lemma grows_cleanup: "grows s (cleanup s)"
  by (simp add: grows_def pending_ids_def cleanup_def Let_def fold_settle_calls kill_def
      split: option.splits)

lemma handleResponse_cases:
  assumes "handleResponse r s = Inr s'"
  obtains (plain) "s' = s\<lparr>logged := logged s @ [ReceivedResponse r]\<rparr>"
  | (notice) "s' = s\<lparr>logged := logged s @ [ReceivedResponse r, ReceivedNotification],
                     emitted := emitted s @ [Notification r]\<rparr>"
  | (taken) i k out where "map_of (pendingRequests s) i = Some k" "out \<noteq> Rejected WriteFailed"
      "s' = settle k i out (s\<lparr>logged := logged s @ [ReceivedResponse r],
                              pendingRequests := AList.delete i (pendingRequests s)\<rparr>)"
  using assms
  by (simp add: handleResponse_def Let_def split: if_splits option.splits) blast+

lemma handleResponse_ok:
  assumes "outcomes_ok s" and "handleResponse r s = Inr s'"
  shows "outcomes_ok s' \<and> grows s s'"
  using assms(2)
proof (cases rule: handleResponse_cases)
  case plain
  then show ?thesis
    using assms(1) ok_cong[of s' s] by (simp add: grows_cong)
next
  case notice
  then show ?thesis
    using assms(1) ok_cong[of s' s] by (simp add: grows_cong)
next
  case (taken i k out)
  let ?s0 = "s\<lparr>logged := logged s @ [ReceivedResponse r]\<rparr>"
  have ok0: "outcomes_ok ?s0" using assms(1) ok_cong[of ?s0 s] by simp
  have g0: "grows s ?s0" by (rule grows_cong) simp_all
  have m: "map_of (pendingRequests ?s0) i = Some k" using taken(1) by simp
  have e: "s' = settle k i out (?s0\<lparr>pendingRequests := AList.delete i (pendingRequests ?s0)\<rparr>)"
    using taken(3) by simp
  have "outcomes_ok s'"
    unfolding e by (rule ok_take[OF ok0 m]) (simp add: taken(2))
  moreover have "grows s s'"
    unfolding e using g0 grows_take by (rule grows_trans)
  ultimately show ?thesis by simp
qed

lemma handleLine_ok:
  assumes "outcomes_ok s"
  shows "outcomes_ok (handleLine parse s l) \<and> grows s (handleLine parse s l)"
proof -
  have a: "outcomes_ok (s\<lparr>logged := x\<rparr>)" "grows s (s\<lparr>logged := x\<rparr>)" for x
    using assms ok_cong[of "s\<lparr>logged := x\<rparr>" s] by (simp_all add: grows_cong)
  show ?thesis
    using assms handleResponse_ok[OF assms] a grows_refl[of s]
    by (auto simp: handleLine_def split: option.splits sum.splits)
qed

lemma handleLines_ok:
  "outcomes_ok s \<Longrightarrow>
   outcomes_ok (foldl (handleLine parse) s ls) \<and> grows s (foldl (handleLine parse) s ls)"
proof (induction ls arbitrary: s)
  case Nil
  then show ?case by (simp add: grows_refl)
next
  case (Cons l ls)
  from handleLine_ok[OF Cons.prems, of parse l]
  have 1: "outcomes_ok (handleLine parse s l)" and 2: "grows s (handleLine parse s l)" by simp_all
  from Cons.IH[OF 1] grows_trans[OF 2]
  show ?case by simp
qed

lemma handleStdout_ok:
  assumes "outcomes_ok s"
  shows "outcomes_ok (handleStdout parse data s) \<and> grows s (handleStdout parse data s)"
proof -
  obtain ls rest where f: "frame (buffer s) data = (ls, rest)" by (cases "frame (buffer s) data")
  have a: "outcomes_ok (s\<lparr>buffer := rest\<rparr>)" "grows s (s\<lparr>buffer := rest\<rparr>)"
    using assms ok_cong[of "s\<lparr>buffer := rest\<rparr>" s] by (simp_all add: grows_cong)
  from handleLines_ok[OF a(1), of parse ls] grows_trans[OF a(2)] f show ?thesis
    by (simp add: handleStdout_def)
qed

lemma connect_settle_ok:
  "outcomes_ok (connect_settle n r s) = outcomes_ok s" "grows t (connect_settle n r s) = grows t s"
  using ok_cong[of "s\<lparr>connects := (connects s)[n := Some r]\<rparr>" s]
  by (simp_all add: connect_settle_def grows_def pending_ids_def)


lemma resume_ok:
  assumes "outcomes_ok s"
  shows "outcomes_ok (resume k out s) \<and> grows s (resume k out s)"
proof (cases k)
  case (KInitialize n)
  have a: "outcomes_ok (s\<lparr>written := w, notifying := x\<rparr>)" "grows s (s\<lparr>written := w, notifying := x\<rparr>)" for w x
    using assms ok_cong[of "s\<lparr>written := w, notifying := x\<rparr>" s] by (simp_all add: grows_cong)
  show ?thesis
    using KInitialize assms a
    by (cases out) (simp_all add: sendNotification_def connect_settle_ok grows_refl)
next
  case KShutdown
  then show ?thesis using ok_cleanup[OF assms] grows_cleanup[of s] by simp
next
  case (KVerb v)
  then show ?thesis
    using assms ok_cong[of "s\<lparr>returned := returned s @ [(v, verb_result v out)]\<rparr>" s]
    by (simp add: grows_cong)
qed

lemma drain_ok:
  "outcomes_ok s \<Longrightarrow> outcomes_ok (drain s) \<and> grows s (drain s)"
proof (induction s rule: drain.induct)
  case (1 s)
  show ?case
  proof (cases "microtasks s")
    case Nil
    then show ?thesis using "1.prems" by (simp add: drain_empty grows_refl)
  next
    case (Cons x ms)
    obtain k out where x: "x = (k, out)" by (cases x)
    let ?t = "s\<lparr>microtasks := ms\<rparr>"
    have okt: "outcomes_ok ?t" using "1.prems" ok_cong[of ?t s] by simp
    have gt: "grows s ?t" by (rule grows_cong) simp_all
    from resume_ok[OF okt, of k out]
    have okr: "outcomes_ok (resume k out ?t)" and gr: "grows ?t (resume k out ?t)" by simp_all
    from "1.IH"[OF Cons x[symmetric] okr]
    have okd: "outcomes_ok (drain (resume k out ?t))"
      and gd: "grows (resume k out ?t) (drain (resume k out ?t))" by simp_all
    have d: "drain s = drain (resume k out ?t)"
      using Cons x by (simp add: drain_next)
    show ?thesis
      unfolding d using okd grows_trans[OF grows_trans[OF gt gr] gd] by simp
  qed
qed

lemma handle_ok:
  assumes "outcomes_ok s"
  shows "outcomes_ok (handle parse ev s) \<and> grows s (handle parse ev s)"
proof (cases ev)
  case (Connect sp)
  let ?n = "length (connects s)"
  show ?thesis
  proof (cases sp)
    case SpawnThrows
    have "outcomes_ok (s\<lparr>connects := connects s @ [None]\<rparr>)" "grows s (s\<lparr>connects := connects s @ [None]\<rparr>)"
      using assms ok_cong[of "s\<lparr>connects := connects s @ [None]\<rparr>" s] by (simp_all add: grows_cong)
    then show ?thesis using Connect SpawnThrows
      by (simp add: connect_def Let_def connect_settle_ok)
  next
    case SpawnNoStreams
    let ?t = "s\<lparr>connects := connects s @ [None],
      children := children s @ [\<lparr>streams = False, killed = False, exited = False, received = []\<rparr>],
      process := Some (length (children s))\<rparr>"
    have "outcomes_ok ?t" "grows s ?t"
      using assms ok_cong[of ?t s] by (simp_all add: grows_cong)
    then show ?thesis using Connect SpawnNoStreams
      by (simp add: connect_def Let_def connect_settle_ok)
  next
    case Spawned
    let ?t = "s\<lparr>connects := connects s @ [None],
      children := children s @ [\<lparr>streams = True, killed = False, exited = False, received = []\<rparr>],
      process := Some (length (children s))\<rparr>"
    have t: "outcomes_ok ?t" "grows s ?t"
      using assms ok_cong[of ?t s] by (simp_all add: grows_cong)
    from ok_issue[OF t(1), of "KInitialize ?n" "''initialize''"]
      grows_trans[OF t(2) grows_issue[of ?t "KInitialize ?n" "''initialize''"]]
    show ?thesis using Connect Spawned
      by (simp add: connect_def Let_def initialize_def getNextRequestId_def)
  qed
next
  case (Stdout data)
  then show ?thesis using handleStdout_ok[OF assms, of parse data] by simp
next
  case (Written i failed)
  have "grows s (writeCallback i failed s)"
  proof -
    let ?s1 = "s\<lparr>writing := remove1 i (writing s)\<rparr>"
    have g1: "grows s ?s1" by (rule grows_cong) simp_all
    have g2: "grows s (?s1\<lparr>calls := c\<rparr>)" for c by (rule grows_cong) simp_all
    have g3: "grows s (settle k i out (?s1\<lparr>pendingRequests := AList.delete i (pendingRequests ?s1)\<rparr>))" for k out
      using grows_trans[OF g1 grows_take] .
    show ?thesis
      using g1 g2 g3 by (auto simp: writeCallback_def Let_def grows_refl split: option.splits)
  qed
  then show ?thesis using Written ok_write[OF assms, of i failed] by simp
next
  case (NotificationWritten failed)
  have a: "outcomes_ok (s\<lparr>notifying := x\<rparr>)" "grows s (s\<lparr>notifying := x\<rparr>)"
    "outcomes_ok (s\<lparr>notifying := x, initialized := True\<rparr>)" "grows s (s\<lparr>notifying := x, initialized := True\<rparr>)" for x
    using assms ok_cong[of "s\<lparr>notifying := x\<rparr>" s] ok_cong[of "s\<lparr>notifying := x, initialized := True\<rparr>" s]
    by (simp_all add: grows_cong)
  show ?thesis
    using NotificationWritten assms a
    by (simp add: notificationCallback_def Let_def connect_settle_ok grows_refl split: list.splits)
next
  case (RequestTimeout i)
  show ?thesis
  proof (cases "map_of (pendingRequests s) i")
    case None
    then show ?thesis using RequestTimeout assms by (simp add: requestTimeout_def grows_refl)
  next
    case (Some k)
    from ok_take[OF assms Some, of "Rejected (TimedOut i)"] grows_take[of s k i "Rejected (TimedOut i)"]
    show ?thesis using RequestTimeout Some by (simp add: requestTimeout_def)
  qed
next
  case ForceKillTimeout
  have "pendingRequests (forceKillTimeout s) = pendingRequests s" "writing (forceKillTimeout s) = writing s"
    "calls (forceKillTimeout s) = calls s" "requestId (forceKillTimeout s) = requestId s"
    by (simp_all add: forceKillTimeout_def Let_def kill_def split: option.splits)
  then show ?thesis
    using ForceKillTimeout assms ok_cong[of "forceKillTimeout s" s] by (simp add: grows_cong)
next
  case (Exit h)
  let ?t = "s\<lparr>children := (children s)[h := (children s ! h)\<lparr>exited := True\<rparr>]\<rparr>"
  have t: "outcomes_ok ?t" "grows s ?t"
    using assms ok_cong[of ?t s] by (simp_all add: grows_cong)
  from ok_cleanup[OF t(1)] grows_trans[OF t(2) grows_cleanup] t
  show ?thesis using Exit assms by (simp add: exitHandler_def Let_def grows_refl)
next
  case (ProcessError n)
  then show ?thesis using assms by (simp add: errorHandler_def connect_settle_ok grows_refl)
next
  case Disconnect
  then show ?thesis
    using ok_issue[OF assms, of KShutdown "''shutdown''"] grows_issue[of s KShutdown "''shutdown''"]
      ok_cleanup[OF assms] grows_cleanup[of s]
    by (simp add: disconnect_def getNextRequestId_def)
next
  case (Call v)
  have a: "outcomes_ok (s\<lparr>returned := x\<rparr>)" "grows s (s\<lparr>returned := x\<rparr>)" for x
    using assms ok_cong[of "s\<lparr>returned := x\<rparr>" s] by (simp_all add: grows_cong)
  show ?thesis
    using Call a ok_issue[OF assms, of "KVerb v" "method_of v"] grows_issue[of s "KVerb v" "method_of v"]
    by (simp add: callVerb_def getNextRequestId_def)
qed


lemma step_ok:
  assumes "outcomes_ok s"
  shows "outcomes_ok (step parse s ev) \<and> grows s (step parse s ev)"
proof -
  from handle_ok[OF assms, of parse ev]
  have h: "outcomes_ok (handle parse ev s)" and g: "grows s (handle parse ev s)" by simp_all
  from drain_ok[OF h] grows_trans[OF g] show ?thesis by (simp add: step_def)
qed

lemma run_ok:
  "outcomes_ok s \<Longrightarrow> outcomes_ok (run parse evs s) \<and> grows s (run parse evs s)"
proof (induction evs arbitrary: s)
  case Nil
  then show ?case by (simp add: run_def grows_refl)
next
  case (Cons ev evs)
  from step_ok[OF Cons.prems, of parse ev]
  have 1: "outcomes_ok (step parse s ev)" and 2: "grows s (step parse s ev)" by simp_all
  have r: "run parse (ev # evs) s = run parse evs (step parse s ev)" by (simp add: run_def)
  from Cons.IH[OF 1] grows_trans[OF 2] show ?case by (simp add: r)
qed

lemma run_append: "run parse (a @ b) s = run parse b (run parse a s)"
  by (simp add: run_def)

lemma gone_stays:
  "grows s s' \<Longrightarrow> i < requestId s \<Longrightarrow> i \<notin> pending_ids s \<Longrightarrow> i \<notin> pending_ids s' \<and> i < requestId s'"
  by (auto simp: grows_def)

lemma timeout_removes:
  assumes "outcomes_ok s" and "i < requestId s"
  shows "i \<notin> pending_ids (step parse s (RequestTimeout i)) \<and> i < requestId (step parse s (RequestTimeout i))"
proof -
  have a: "i \<notin> pending_ids (requestTimeout i s)" "requestId (requestTimeout i s) = requestId s"
    by (auto simp: requestTimeout_def pending_ids_def settle_def ids_delete map_of_eq_None_iff
        split: option.splits)
  from handle_ok[OF assms(1), of parse "RequestTimeout i"]
  have "outcomes_ok (requestTimeout i s)" by simp
  from drain_ok[OF this] have "grows (requestTimeout i s) (drain (requestTimeout i s))" by simp
  from gone_stays[OF this, of i] a assms(2) show ?thesis by (simp add: step_def)
qed

lemma new_client_ok: "outcomes_ok new_client"
  by (simp add: outcomes_ok_def pending_ok_def pending_ids_def delivered_def write_failures_def
      new_client_def)

text \<open>
  C1, as stated, fails: besides the three outcomes named there is the rejection by the
  write callback. A ready connection calls \<^verbatim>\<open>listTools\<close>, the write of request 2 fails,
  and later the timer of request 2 fires: the waiter of request 2 has been rejected with
  the write failure, and none of response, timeout and connection-closed has occurred.
\<close>

theorem write_failure_outcome:
  \<open>calls (run demo_parse
      [Connect Spawned, Stdout (''{"jsonrpc":"2.0","id":1,"result":{}}'' @ [CHR 0x0A]),
       NotificationWritten False, Call ListTools, Written 2 True, RequestTimeout 2] new_client)
     = [(1, Resolved init_reply), (2, Rejected WriteFailed)]
   \<and> returned (run demo_parse
      [Connect Spawned, Stdout (''{"jsonrpc":"2.0","id":1,"result":{}}'' @ [CHR 0x0A]),
       NotificationWritten False, Call ListTools, Written 2 True, RequestTimeout 2] new_client)
     = [(ListTools, Inl WriteFailed)]
   \<and> pendingRequests (run demo_parse
      [Connect Spawned, Stdout (''{"jsonrpc":"2.0","id":1,"result":{}}'' @ [CHR 0x0A]),
       NotificationWritten False, Call ListTools, Written 2 True, RequestTimeout 2] new_client) = []\<close>
  by (simp add: client_defs)

text \<open>
  C1, amended: for every request issued on a Child Connection, the outcomes other than a
  write failure (a matching response, the 30 s timeout, the connection-closed rejection of
  teardown, or the immediate rejection when the process has no stdin) reach its waiter at
  most once in total, and the write-failure rejection at most once; the request's id is in
  the pending table exactly as long as no outcome has reached the waiter, so each outcome
  has removed it; and once the request's timer has fired the id is out of the table, so an
  outcome has occurred.
\<close>

theorem request_outcomes:
  assumes "1 \<le> i" and "i < requestId (run parse evs new_client)"
  shows "delivered i (run parse evs new_client) \<le> 1
    \<and> write_failures i (run parse evs new_client) \<le> 1
    \<and> (i \<in> pending_ids (run parse evs new_client) \<longleftrightarrow>
         delivered i (run parse evs new_client) + write_failures i (run parse evs new_client) = 0)
    \<and> (\<forall>evs1 evs2. evs = evs1 @ RequestTimeout i # evs2 \<and> i < requestId (run parse evs1 new_client)
         \<longrightarrow> i \<notin> pending_ids (run parse evs new_client))"
proof -
  let ?s = "run parse evs new_client"
  have ok: "outcomes_ok ?s" using run_ok[OF new_client_ok, of parse evs] by simp
  have 1: "delivered i ?s \<le> 1" "write_failures i ?s \<le> 1"
    using ok by (simp_all add: outcomes_ok_def)
  have 2: "i \<in> pending_ids ?s \<longleftrightarrow> delivered i ?s + write_failures i ?s = 0"
    using ok assms by (auto simp: outcomes_ok_def)
  have 3: "i \<notin> pending_ids ?s"
    if e: "evs = evs1 @ RequestTimeout i # evs2" and lt: "i < requestId (run parse evs1 new_client)"
    for evs1 evs2
  proof -
    let ?a = "run parse evs1 new_client"
    have oka: "outcomes_ok ?a" using run_ok[OF new_client_ok, of parse evs1] by simp
    from timeout_removes[OF oka lt, of parse]
    have g: "i \<notin> pending_ids (step parse ?a (RequestTimeout i))"
      "i < requestId (step parse ?a (RequestTimeout i))" by simp_all
    have okb: "outcomes_ok (step parse ?a (RequestTimeout i))"
      using step_ok[OF oka, of parse "RequestTimeout i"] by simp
    have r: "?s = run parse evs2 (step parse ?a (RequestTimeout i))"
      unfolding e by (simp add: run_def)
    from run_ok[OF okb, of parse evs2]
    have "grows (step parse ?a (RequestTimeout i)) (run parse evs2 (step parse ?a (RequestTimeout i)))"
      by simp
    from gone_stays[OF this g(2) g(1)] r show ?thesis by simp
  qed
  from 1 2 3 show ?thesis by blast
qed

theorem request_outcomes_witness:
  "(1::nat) \<le> 1 \<and> 1 < requestId (run demo_parse [Connect Spawned, RequestTimeout 1] new_client)
   \<and> delivered 1 (run demo_parse [Connect Spawned, RequestTimeout 1] new_client) = 1
   \<and> write_failures 1 (run demo_parse [Connect Spawned, RequestTimeout 1] new_client) = 0
   \<and> 1 \<notin> pending_ids (run demo_parse [Connect Spawned, RequestTimeout 1] new_client)"
proof -
  let ?s = "run demo_parse [Connect Spawned, RequestTimeout 1] new_client"
  have a: "(1::nat) \<le> 1" and b: "1 < requestId ?s"
    by (simp_all add: client_defs)
  have c: "[Connect Spawned, RequestTimeout 1] = [Connect Spawned] @ RequestTimeout 1 # []"
    and d: "1 < requestId (run demo_parse [Connect Spawned] new_client)"
    by (simp_all add: client_defs)
  have e: "write_failures 1 ?s = 0"
    by (simp add: write_failures_def client_defs)
  note r = request_outcomes[OF a b]
  have 1: "delivered 1 ?s \<le> 1"
    using r by (rule conjunct1)
  have 2: "1 \<in> pending_ids ?s \<longleftrightarrow> delivered 1 ?s + write_failures 1 ?s = 0"
    using r[THEN conjunct2, THEN conjunct2] by (rule conjunct1)
  have "\<forall>evs1 evs2. [Connect Spawned, RequestTimeout 1] = evs1 @ RequestTimeout 1 # evs2
      \<and> 1 < requestId (run demo_parse evs1 new_client) \<longrightarrow> 1 \<notin> pending_ids ?s"
    using r[THEN conjunct2, THEN conjunct2] by (rule conjunct2)
  then have 3: "1 \<notin> pending_ids ?s"
    using c d by blast
  from 2 3 e have "delivered 1 ?s \<noteq> 0" by simp
  with 1 have "delivered 1 ?s = 1" by arith
  with a b e 3 show ?thesis by simp
qed

subsection \<open>The \<^verbatim>\<open>disconnected\<close> signal\<close>

text \<open>
  C2, as stated, fails: a ready connection is disconnected, the child answers the
  \<^verbatim>\<open>shutdown\<close> request and then exits on the SIGTERM of \<^verbatim>\<open>cleanup\<close>; the \<^verbatim>\<open>exit\<close>
  handler runs \<^verbatim>\<open>cleanup\<close> again and \<^verbatim>\<open>disconnected\<close> is emitted a second time.
\<close>

theorem disconnected_twice:
  \<open>emitted (run demo_parse
      [Connect Spawned,
       Stdout (''{"jsonrpc":"2.0","id":1,"result":{}}'' @ [CHR 0x0A]),
       NotificationWritten False,
       Disconnect,
       Stdout (''{"jsonrpc":"2.0","id":2,"result":{}}'' @ [CHR 0x0A]),
       Exit 0] new_client) = [Disconnected, Disconnected]\<close>
  by (simp add: client_defs)

text \<open>
  C2, amended: every run of \<^verbatim>\<open>cleanup\<close> emits \<^verbatim>\<open>disconnected\<close> once, and \<^verbatim>\<open>cleanup\<close>
  runs once for every exit of a child that carries the \<^verbatim>\<open>'exit'\<close> handler and once for
  every call of \<^verbatim>\<open>disconnect\<close> (when
  its \<^verbatim>\<open>shutdown\<close> request has settled). So at any moment the number of emissions plus
  the number of \<^verbatim>\<open>disconnect\<close> calls still waiting equals the number of \<^verbatim>\<open>disconnect\<close>
  calls plus the number of child exits: one emission when the child's exit is the only
  trigger, two when an external disconnect is followed by the child's exit.
\<close>

theorem disconnected_per_cleanup:
  "disconnected_count (run parse evs new_client) + shutdowns_waiting (run parse evs new_client)
   = length (filter (\<lambda>ev. ev = Disconnect) evs) + exits (run parse evs new_client)"
proof -
  have ok: "pending_ok new_client" and q: "microtasks new_client = []"
    by (simp_all add: pending_ok_def new_client_def)
  have z: "closings new_client = 0" "exits new_client = 0"
    by (simp_all add: closings_def disconnected_count_def shutdowns_waiting_def
        shutdowns_queued_def exits_def new_client_def)
  from run_closings[OF ok q, of parse evs]
  have e: "closings (run parse evs new_client) + exits new_client
      = closings new_client + exits (run parse evs new_client)
        + length (filter (\<lambda>ev. ev = Disconnect) evs)"
    and m: "microtasks (run parse evs new_client) = []"
    by simp_all
  have "closings (run parse evs new_client)
      = disconnected_count (run parse evs new_client) + shutdowns_waiting (run parse evs new_client)"
    using m by (simp add: closings_def shutdowns_queued_def)
  with e z show ?thesis by simp
qed

theorem disconnected_per_cleanup_witness:
  \<open>disconnected_count (run demo_parse
      [Connect Spawned, Stdout (''{"jsonrpc":"2.0","id":1,"result":{}}'' @ [CHR 0x0A]),
       NotificationWritten False, Exit 0] new_client) = 1
   \<and> disconnected_count (run demo_parse
      [Connect Spawned, Stdout (''{"jsonrpc":"2.0","id":1,"result":{}}'' @ [CHR 0x0A]),
       NotificationWritten False, Disconnect] new_client) = 0
   \<and> disconnected_count (run demo_parse
      [Connect Spawned, Stdout (''{"jsonrpc":"2.0","id":1,"result":{}}'' @ [CHR 0x0A]),
       NotificationWritten False, Disconnect, RequestTimeout 2, Exit 0] new_client) = 2\<close>
proof -
  let ?a = \<open>[Connect Spawned, Stdout (''{"jsonrpc":"2.0","id":1,"result":{}}'' @ [CHR 0x0A]),
       NotificationWritten False, Exit 0]\<close>
  let ?b = \<open>[Connect Spawned, Stdout (''{"jsonrpc":"2.0","id":1,"result":{}}'' @ [CHR 0x0A]),
       NotificationWritten False, Disconnect]\<close>
  let ?c = \<open>[Connect Spawned, Stdout (''{"jsonrpc":"2.0","id":1,"result":{}}'' @ [CHR 0x0A]),
       NotificationWritten False, Disconnect, RequestTimeout 2, Exit 0]\<close>
  have a: "shutdowns_waiting (run demo_parse ?a new_client) = 0" "exits (run demo_parse ?a new_client) = 1"
    by (simp_all add: shutdowns_waiting_def exits_def client_defs)
  have b: "shutdowns_waiting (run demo_parse ?b new_client) = 1" "exits (run demo_parse ?b new_client) = 0"
    by (simp_all add: shutdowns_waiting_def exits_def client_defs)
  have c: "shutdowns_waiting (run demo_parse ?c new_client) = 0" "exits (run demo_parse ?c new_client) = 1"
    by (simp_all add: shutdowns_waiting_def exits_def client_defs)
  from disconnected_per_cleanup[of demo_parse ?a] disconnected_per_cleanup[of demo_parse ?b]
    disconnected_per_cleanup[of demo_parse ?c] a b c
  show ?thesis by simp
qed

subsection \<open>Escalation to SIGKILL\<close>

text \<open>
  C3, evaluated on the code: a ready connection is disconnected, the child answers the
  \<^verbatim>\<open>shutdown\<close> request, \<^verbatim>\<open>cleanup\<close> sends SIGTERM, the child does not exit, and the
  5 s timer fires. The timer reads \<^verbatim>\<open>this.process\<close>, which \<^verbatim>\<open>cleanup\<close> has set to
  \<^verbatim>\<open>null\<close>: the child has received SIGTERM only.
\<close>

theorem force_kill_never_sent:
  \<open>children (run demo_parse
      [Connect Spawned,
       Stdout (''{"jsonrpc":"2.0","id":1,"result":{}}'' @ [CHR 0x0A]),
       NotificationWritten False,
       Disconnect,
       Stdout (''{"jsonrpc":"2.0","id":2,"result":{}}'' @ [CHR 0x0A]),
       ForceKillTimeout] new_client)
    = [\<lparr>streams = True, killed = True, exited = False, received = [SIGTERM]\<rparr>]
   \<and> killTimers (run demo_parse
      [Connect Spawned,
       Stdout (''{"jsonrpc":"2.0","id":1,"result":{}}'' @ [CHR 0x0A]),
       NotificationWritten False,
       Disconnect,
       Stdout (''{"jsonrpc":"2.0","id":2,"result":{}}'' @ [CHR 0x0A]),
       ForceKillTimeout] new_client) = 0\<close>
  by (simp add: client_defs)

lemma cleanup_forgets_process: "process (cleanup s) = None"
proof -
  have "process (foldl (\<lambda>t (i, k). settle k i e t) t0 ps) = process t0" for e t0 ps
    by (induction ps arbitrary: t0) (auto simp: settle_def)
  then show ?thesis
    by (simp add: cleanup_def Let_def split: option.splits)
qed

lemma timer_without_process: "process s = None \<Longrightarrow> children (forceKillTimeout s) = children s"
  by (simp add: forceKillTimeout_def Let_def)

subsection \<open>A handshake that fails\<close>





subsection \<open>Messages whose id matches no waiter\<close>

text \<open>
  C5, as stated, fails: after \<^verbatim>\<open>connect\<close> only request 1 is pending; the child sends a
  message with id 7 and a \<^verbatim>\<open>method\<close> (a request of the server). The id matches no
  waiter, and the message is emitted on the \<^verbatim>\<open>notification\<close> signal.
\<close>

theorem unmatched_id_emits_notification:
  \<open>map fst (pendingRequests (run demo_parse [Connect Spawned] new_client)) = [1]
   \<and> get_prop server_request ''id'' = Some (JNum 7)
   \<and> emitted (run demo_parse [Connect Spawned] new_client) = []
   \<and> emitted (run demo_parse
        [Connect Spawned, Stdout (''{"jsonrpc":"2.0","id":7,"method":"ping"}'' @ [CHR 0x0A])]
        new_client) = [Notification server_request]\<close>
  by (simp add: client_defs)

text \<open>
  C5, amended: a complete stdout line that parses to a message whose id matches no pending
  entry settles no waiter and leaves the pending table and every other field of the
  connection as they are, apart from the log and the \<^verbatim>\<open>notification\<close> signal: it is
  logged; when it carries no truthy \<^verbatim>\<open>method\<close> it is discarded; when it carries a truthy
  \<^verbatim>\<open>method\<close> that can be printed in the log line it is emitted on the \<^verbatim>\<open>notification\<close>
  signal; \<^verbatim>\<open>null\<close>, and a message whose truthy \<^verbatim>\<open>method\<close> cannot be printed, are logged
  as a failed line and dropped.
\<close>

theorem unmatched_message:
  assumes "trim line \<noteq> []" and "parse (trim line) = Some response"
    and "\<forall>i. get_prop response ''id'' = Some (JNum (int i)) \<longrightarrow> map_of (pendingRequests s) i = None"
  shows "handleLine parse s line =
     (if response = JNull then
        s\<lparr>logged := logged s @ [ReceivedResponse response, ParseFailure line]\<rparr>
      else
        (case get_prop response ''method'' of
           None \<Rightarrow> s\<lparr>logged := logged s @ [ReceivedResponse response]\<rparr>
         | Some m \<Rightarrow>
             if \<not> truthy m then s\<lparr>logged := logged s @ [ReceivedResponse response]\<rparr>
             else if unprintable m then
               s\<lparr>logged := logged s @ [ReceivedResponse response, ParseFailure line]\<rparr>
             else
               s\<lparr>logged := logged s @ [ReceivedResponse response, ReceivedNotification],
                  emitted := emitted s @ [Notification response]\<rparr>))"
proof -
  have "pending_key (get_prop response ''id'') (s\<lparr>logged := l\<rparr>) = None" for l
    using assms(3) by (auto simp: pending_key_def split: option.splits json.splits)
  then show ?thesis
    using assms(1,2)
    by (simp add: handleLine_def handleResponse_def Let_def truthy_opt_def split: option.splits)
qed

theorem unmatched_message_witness:
  \<open>handleLine demo_parse (run demo_parse [Connect Spawned, RequestTimeout 1] new_client)
      (toString ''{"jsonrpc":"2.0","id":1,"result":{}}'')
    = (run demo_parse [Connect Spawned, RequestTimeout 1] new_client)
        \<lparr>logged := [ReceivedResponse init_reply]\<rparr>
   \<and> handleLine demo_parse (run demo_parse [Connect Spawned, RequestTimeout 1] new_client)
      (toString ''{"jsonrpc":"2.0","method":{"toString":1}}'')
    = (run demo_parse [Connect Spawned, RequestTimeout 1] new_client)
        \<lparr>logged := [ReceivedResponse odd_method,
                    ParseFailure (toString ''{"jsonrpc":"2.0","method":{"toString":1}}'')]\<rparr>\<close>
proof -
  let ?s = "run demo_parse [Connect Spawned, RequestTimeout 1] new_client"
  let ?l = \<open>toString ''{"jsonrpc":"2.0","id":1,"result":{}}''\<close>
  let ?o = \<open>toString ''{"jsonrpc":"2.0","method":{"toString":1}}''\<close>
  have p: "pendingRequests ?s = []" and l: "logged ?s = []"
    by (simp_all add: client_defs)
  have 1: "trim ?l \<noteq> []" "trim ?o \<noteq> []" by (simp_all add: client_defs)
  have 2: "demo_parse (trim ?l) = Some init_reply" "demo_parse (trim ?o) = Some odd_method"
    by (simp_all add: client_defs)
  have 3: "\<forall>i. get_prop r ''id'' = Some (JNum (int i)) \<longrightarrow> map_of (pendingRequests ?s) i = None" for r
    using p by simp
  have 4: "init_reply \<noteq> JNull" "get_prop init_reply ''method'' = None"
    by (simp_all add: init_reply_def)
  have 5: "odd_method \<noteq> JNull" "get_prop odd_method ''method'' = Some (JObj [(''toString'', JNum 1)])"
    by (simp_all add: odd_method_def)
  have a: "handleLine demo_parse ?s ?l = ?s\<lparr>logged := [ReceivedResponse init_reply]\<rparr>"
    using unmatched_message[where line = ?l and parse = demo_parse and response = init_reply and s = ?s]
      1 2 3 4 l by simp
  have b: "handleLine demo_parse ?s ?o = ?s\<lparr>logged := [ReceivedResponse odd_method, ParseFailure ?o]\<rparr>"
    using unmatched_message[where line = ?o and parse = demo_parse and response = odd_method and s = ?s]
      1 2 3 5 l by simp
  from a b show ?thesis by simp
qed

subsection \<open>Framing of the child's standard output\<close>

text \<open>
  C6, evaluated on the code: the child answers request 1 with a result holding the
  character U+00E9, two bytes in UTF-8. Read in one chunk, the line handed to
  \<^verbatim>\<open>JSON.parse\<close> holds U+00E9 and the waiter is resolved with that string. Read in two
  chunks that end and start between the two bytes, each chunk is decoded on its own by
  \<^verbatim>\<open>data.toString()\<close>, the buffer holds U+FFFD for the first byte, the completed line
  holds U+FFFD twice, and the waiter is resolved with another string.
\<close>

theorem split_character_changes_message:
  \<open>calls (run demo_parse
      [Connect Spawned,
       Stdout (''{"jsonrpc":"2.0","id":1,"result":"'' @ [CHR 0xC3, CHR 0xA9] @ ''"}'' @ [CHR 0x0A])]
      new_client) = [(1, Resolved accent_reply)]
   \<and> calls (run demo_parse
      [Connect Spawned,
       Stdout (''{"jsonrpc":"2.0","id":1,"result":"'' @ [CHR 0xC3]),
       Stdout ([CHR 0xA9] @ ''"}'' @ [CHR 0x0A])]
      new_client) = [(1, Resolved replaced_reply)]
   \<and> accent_reply \<noteq> replaced_reply
   \<and> frame [] (''{"jsonrpc":"2.0","id":1,"result":"'' @ [CHR 0xC3, CHR 0xA9] @ ''"}'' @ [CHR 0x0A])
       = ([toString ''{"jsonrpc":"2.0","id":1,"result":"'' @ [0xE9] @ toString ''"}''], [])
   \<and> frame [] (''{"jsonrpc":"2.0","id":1,"result":"'' @ [CHR 0xC3])
       = ([], toString ''{"jsonrpc":"2.0","id":1,"result":"'' @ [0xFFFD])
   \<and> frame (toString ''{"jsonrpc":"2.0","id":1,"result":"'' @ [0xFFFD]) ([CHR 0xA9] @ ''"}'' @ [CHR 0x0A])
       = ([toString ''{"jsonrpc":"2.0","id":1,"result":"'' @ [0xFFFD, 0xFFFD] @ toString ''"}''], [])\<close>
  by (simp add: client_defs)

text \<open>
  What holds of the framing: on chunks whose decoding composes (as it does when the first
  chunk is ASCII, or ends between two characters), feeding two chunks one after the other
  is feeding their concatenation; a blank line is skipped and a line that does not parse
  is only logged.
\<close>

lemma split_nl_nonempty: "split_nl t \<noteq> []"
  by (induction t) (auto split: list.splits)

lemma split_nl_append:
  "split_nl (a @ b) = butlast (split_nl a) @ split_nl (last (split_nl a) @ b)"
proof (induction a)
  case Nil
  then show ?case by simp
next
  case (Cons c a)
  obtain l ls where s: "split_nl a = l # ls"
    using split_nl_nonempty[of a] by (cases "split_nl a") auto
  show ?case
  proof (cases ls)
    case Nil
    with s Cons show ?thesis by (auto split: list.splits)
  next
    case (Cons l' ls')
    with s Cons.IH show ?thesis by (auto split: list.splits)
  qed
qed

lemma frame_chunks:
  assumes "toString (a @ b) = toString a @ toString b"
  shows "frame buf (a @ b)
     = (fst (frame buf a) @ fst (frame (snd (frame buf a)) b), snd (frame (snd (frame buf a)) b))"
proof -
  have "split_nl (buf @ toString a @ toString b)
      = butlast (split_nl (buf @ toString a)) @ split_nl (last (split_nl (buf @ toString a)) @ toString b)"
    using split_nl_append[of "buf @ toString a" "toString b"] by simp
  then show ?thesis
    using assms split_nl_nonempty
    by (simp add: frame_def Let_def butlast_append last_append)
qed

lemma toString_ascii:
  "\<forall>c \<in> set a. (of_char c :: nat) \<le> 0x7F \<Longrightarrow> toString (a @ b) = toString a @ toString b"
  by (induction a) (auto simp: toString_def utf8_lead_def)


lemma handleResponse_buffer:
  "handleResponse r (s\<lparr>buffer := b\<rparr>) = map_sum id (\<lambda>t. t\<lparr>buffer := b\<rparr>) (handleResponse r s)"
  by (auto simp: handleResponse_def Let_def pending_key_def settle_def
      split: option.splits json.splits)

lemma handleLine_buffer:
  "handleLine parse (s\<lparr>buffer := b\<rparr>) l = (handleLine parse s l)\<lparr>buffer := b\<rparr>"
  by (cases "handleResponse (the (parse (trim l))) s")
    (auto simp: handleLine_def handleResponse_buffer split: option.splits sum.splits)

lemma handleLines_buffer:
  "foldl (handleLine parse) (s\<lparr>buffer := b\<rparr>) ls = (foldl (handleLine parse) s ls)\<lparr>buffer := b\<rparr>"
  by (induction ls arbitrary: s) (simp_all add: handleLine_buffer)

lemma handleStdout_chunks:
  assumes "toString (a @ b) = toString a @ toString b"
  shows "handleStdout parse b (handleStdout parse a s) = handleStdout parse (a @ b) s"
proof -
  obtain l1 r1 where f1: "frame (buffer s) a = (l1, r1)" by (cases "frame (buffer s) a")
  obtain l2 r2 where f2: "frame r1 b = (l2, r2)" by (cases "frame r1 b")
  have f: "frame (buffer s) (a @ b) = (l1 @ l2, r2)"
    using frame_chunks[OF assms, of "buffer s"] f1 f2 by simp
  have "handleStdout parse a s = (foldl (handleLine parse) s l1)\<lparr>buffer := r1\<rparr>"
    using f1 by (simp add: handleStdout_def handleLines_buffer)
  then have "handleStdout parse b (handleStdout parse a s)
      = (foldl (handleLine parse) (foldl (handleLine parse) s l1) l2)\<lparr>buffer := r2\<rparr>"
    using f2 by (simp add: handleStdout_def handleLines_buffer)
  also have "\<dots> = handleStdout parse (a @ b) s"
    using f by (simp add: handleStdout_def handleLines_buffer)
  finally show ?thesis .
qed

lemma malformed_line_dropped:
  "trim l \<noteq> [] \<Longrightarrow> parse (trim l) = None \<Longrightarrow>
   handleLine parse s l = s\<lparr>logged := logged s @ [ParseFailure l]\<rparr>"
  by (simp add: handleLine_def)

lemma blank_line_ignored: "trim l = [] \<Longrightarrow> handleLine parse s l = s"
  by (simp add: handleLine_def)

subsection \<open>What \<^verbatim>\<open>listTools\<close> and \<^verbatim>\<open>listResources\<close> return\<close>

text \<open>
  C10, as stated, fails in its last part (``the returned value is always a list''): a
  ready connection calls \<^verbatim>\<open>listTools\<close>, the child answers request 2 with a result whose
  \<^verbatim>\<open>tools\<close> member is the string \<^verbatim>\<open>"x"\<close>, and \<^verbatim>\<open>listTools\<close> returns that string.
\<close>

theorem listTools_returns_non_list:
  \<open>returned (run demo_parse
      [Connect Spawned,
       Stdout (''{"jsonrpc":"2.0","id":1,"result":{}}'' @ [CHR 0x0A]),
       NotificationWritten False,
       Call ListTools,
       Stdout (''{"jsonrpc":"2.0","id":2,"result":{"tools":"x"}}'' @ [CHR 0x0A])] new_client)
     = [(ListTools, Inr (Some (JStr ''x'')))] \<and> \<not> is_array (JStr ''x'')\<close>
  by (simp add: client_defs)

text \<open>
  C10, amended: for a resolved \<^verbatim>\<open>tools/list\<close> (\<^verbatim>\<open>resources/list\<close>) request, when the
  response has no \<^verbatim>\<open>result\<close> or the result has no \<^verbatim>\<open>tools\<close> (\<^verbatim>\<open>resources\<close>) member,
  the verb returns the empty list and does not fail; when the member is there, the verb
  returns it unchanged if it is truthy and the empty list otherwise. So the value is a
  list whenever the member is absent, falsy or a list.
\<close>

theorem list_verbs_result:
  "((get_prop response ''result'' = None \<or>
     (\<exists>r. get_prop response ''result'' = Some r \<and> get_prop r ''tools'' = None))
      \<longrightarrow> verb_result ListTools (Resolved response) = Inr (Some (JArr [])))
   \<and> ((get_prop response ''result'' = None \<or>
     (\<exists>r. get_prop response ''result'' = Some r \<and> get_prop r ''resources'' = None))
      \<longrightarrow> verb_result ListResources (Resolved response) = Inr (Some (JArr [])))
   \<and> (\<forall>r t. get_prop response ''result'' = Some r \<and> get_prop r ''tools'' = Some t
      \<longrightarrow> verb_result ListTools (Resolved response) = Inr (Some (if truthy t then t else JArr [])))
   \<and> (\<forall>r t. get_prop response ''result'' = Some r \<and> get_prop r ''resources'' = Some t
      \<longrightarrow> verb_result ListResources (Resolved response) = Inr (Some (if truthy t then t else JArr [])))"
  by (auto simp: verb_result_def opt_prop_def or_empty_array_def split: json.splits option.splits)

theorem list_verbs_result_witness:
  "verb_result ListTools (Resolved init_reply) = Inr (Some (JArr []))
   \<and> verb_result ListResources (Resolved init_reply) = Inr (Some (JArr []))
   \<and> verb_result ListTools (Resolved odd_tools_reply) = Inr (Some (JStr ''x''))
   \<and> verb_result ListResources
        (Resolved (JObj [(''id'', JNum 3), (''result'', JObj [(''resources'', JNum 0)])]))
      = Inr (Some (JArr []))"
proof -
  have a: "get_prop init_reply ''result'' = Some (JObj [])" "get_prop (JObj []) ''tools'' = None"
    "get_prop (JObj []) ''resources'' = None"
    by (simp_all add: init_reply_def)
  have b: "get_prop odd_tools_reply ''result'' = Some (JObj [(''tools'', JStr ''x'')])"
    "get_prop (JObj [(''tools'', JStr ''x'')]) ''tools'' = Some (JStr ''x'')"
    by (simp_all add: odd_tools_reply_def)
  have c: "get_prop (JObj [(''id'', JNum 3), (''result'', JObj [(''resources'', JNum 0)])]) ''result''
      = Some (JObj [(''resources'', JNum 0)])"
    "get_prop (JObj [(''resources'', JNum 0)]) ''resources'' = Some (JNum 0)"
    by simp_all
  from list_verbs_result[of init_reply] a
  have 1: "verb_result ListTools (Resolved init_reply) = Inr (Some (JArr []))"
    and 2: "verb_result ListResources (Resolved init_reply) = Inr (Some (JArr []))"
    by blast+
  from list_verbs_result[of odd_tools_reply] b
  have 3: "verb_result ListTools (Resolved odd_tools_reply) = Inr (Some (JStr ''x''))"
    by auto
  from list_verbs_result[of "JObj [(''id'', JNum 3), (''result'', JObj [(''resources'', JNum 0)])]"] c
  have 4: "verb_result ListResources
        (Resolved (JObj [(''id'', JNum 3), (''result'', JObj [(''resources'', JNum 0)])]))
      = Inr (Some (JArr []))"
    by auto
  from 1 2 3 4 show ?thesis by simp
qed


section \<open>Properties of the Manager\<close>







lemma list_printable: "is_array v \<Longrightarrow> \<not> length_unprintable v"
  by (cases v) (simp_all add: length_unprintable_def)



text \<open>
  C8: for a name in \<open>clients\<close>, after \<^verbatim>\<open>disconnectServer\<close> the name is absent from the map,
  whether the call returns or raises the error of \<^verbatim>\<open>client.disconnect()\<close>; for a name not
  in \<open>clients\<close> it fails with the not-connected error and the manager is unchanged.
\<close>

theorem disconnect_removes:
  "(map_of (clients m) nm \<noteq> None \<longrightarrow>
      map_of (clients (snd (disconnectServer nm r m))) nm = None \<and>
      fst (disconnectServer nm r m) = (case thrown r of None \<Rightarrow> Inr () | Some e \<Rightarrow> Inl (Raised e)))
   \<and> (map_of (clients m) nm = None \<longrightarrow> disconnectServer nm r m = (Inl (NotConnected nm), m))"
  by (auto simp: disconnectServer_def Let_def delete_conv' split: option.splits)

text \<open>
  C9: for a name already in \<open>clients\<close>, \<^verbatim>\<open>connectServer\<close> returns the already-connected
  answer, which is not an error, constructs and connects no client (no process is spawned)
  and leaves \<open>clients\<close> and \<open>configs\<close> as they are.
\<close>

theorem connect_twice_noop:
  "map_of (clients m) nm \<noteq> None \<Longrightarrow>
   connectServer nm customConfig r m = (Inr AlreadyConnected, m)
   \<and> made (snd (connectServer nm customConfig r m)) = made m
   \<and> clients (snd (connectServer nm customConfig r m)) = clients m
   \<and> configs (snd (connectServer nm customConfig r m)) = configs m"
  by (simp add: connectServer_def)



lemma unprintable_length_overwritten:
  "listAllTools (\<lambda>c. Inr (JObj [(''length'', JObj [(''toString'', JNum 1)])])) []
     \<lparr>clients = [(''nodit'', 1)], configs = [], made = []\<rparr>
   = Inr \<lparr>own = [(''nodit'', JArr [])], proto = None\<rparr>"
  by (simp add: listAllTools_def list_entry_def set_prop_def length_unprintable_def empty_object_def)

theorem disconnect_removes_witness:
  "map_of (clients demo_manager) ''nodit'' \<noteq> None
   \<and> map_of (clients (snd (disconnectServer ''nodit''
         \<lparr>disconnected_emitted = 1, thrown = Some (TimedOut 3)\<rparr> demo_manager))) ''nodit'' = None
   \<and> fst (disconnectServer ''nodit''
         \<lparr>disconnected_emitted = 1, thrown = Some (TimedOut 3)\<rparr> demo_manager) = Inl (Raised (TimedOut 3))
   \<and> map_of (clients demo_manager) ''ghost'' = None
   \<and> disconnectServer ''ghost'' \<lparr>disconnected_emitted = 0, thrown = None\<rparr> demo_manager
       = (Inl (NotConnected ''ghost''), demo_manager)"
proof -
  have a: "map_of (clients demo_manager) ''nodit'' \<noteq> None"
    and b: "map_of (clients demo_manager) ''ghost'' = None"
    by (simp_all add: demo_manager_def)
  from disconnect_removes[of demo_manager "''nodit''" "\<lparr>disconnected_emitted = 1, thrown = Some (TimedOut 3)\<rparr>"]
    disconnect_removes[of demo_manager "''ghost''" "\<lparr>disconnected_emitted = 0, thrown = None\<rparr>"] a b
  show ?thesis by simp
qed

theorem connect_twice_noop_witness:
  "map_of (clients demo_manager) ''nodit'' \<noteq> None
   \<and> connectServer ''nodit''
        \<lparr>custom_command = None, custom_args = None, custom_env = [], custom_cwd = None\<rparr>
        \<lparr>disconnected_emitted = 0, thrown = None\<rparr> demo_manager = (Inr AlreadyConnected, demo_manager)"
proof -
  have a: "map_of (clients demo_manager) ''nodit'' \<noteq> None"
    by (simp add: demo_manager_def)
  from connect_twice_noop[OF a] a show ?thesis by simp
qed

end
